theory Spec2Isabelle
  imports
    Main
    "HOL-Library.AList"
    "HOL-Library.Char_ord"
    "HOL-Library.List_Lexorder"
    "HOL-Library.Multiset"
    "HOL-Library.Product_Lexorder"
begin

section \<open>Strings and characters\<close>

text \<open>
  The program is \<^verbatim>\<open>nt8_status_complete.py\<close>. Its strings are modelled as
  \<^typ>\<open>string\<close>; a character is one of the 256 code points of \<^typ>\<open>char\<close>, read as the
  first 256 Unicode code points (Latin-1). The character classes below are those of
  Python's \<^verbatim>\<open>str\<close> and \<^verbatim>\<open>re\<close> on these code points.
\<close>

definition code :: "char \<Rightarrow> nat" where
  "code c = of_char c"

definition between :: "nat \<Rightarrow> nat \<Rightarrow> nat \<Rightarrow> bool" where
  "between lo hi n = (lo \<le> n \<and> n \<le> hi)"

definition is_space :: "char \<Rightarrow> bool" where
  \<comment> \<open>\<^verbatim>\<open>str.isspace\<close>, the class \<^verbatim>\<open>\s\<close>, and what \<^verbatim>\<open>str.strip()\<close> removes\<close>
  "is_space c = (let n = code c in
     between 9 13 n \<or> between 28 32 n \<or> n = 133 \<or> n = 160)"

definition is_decimal :: "char \<Rightarrow> bool" where
  \<comment> \<open>the class \<^verbatim>\<open>\d\<close>\<close>
  "is_decimal c = between 48 57 (code c)"

definition is_alnum :: "char \<Rightarrow> bool" where
  \<comment> \<open>\<^verbatim>\<open>str.isalnum\<close>\<close>
  "is_alnum c = (let n = code c in
     between 48 57 n \<or> between 65 90 n \<or> between 97 122 n \<or> n = 170 \<or>
     between 178 179 n \<or> n = 181 \<or> between 185 186 n \<or> between 188 190 n \<or>
     between 192 214 n \<or> between 216 246 n \<or> between 248 255 n)"

definition is_word :: "char \<Rightarrow> bool" where
  \<comment> \<open>the class \<^verbatim>\<open>\w\<close>\<close>
  "is_word c = (is_alnum c \<or> c = CHR ''_'')"

definition lower_char :: "char \<Rightarrow> char" where
  "lower_char c = (let n = code c in
     if between 65 90 n \<or> between 192 214 n \<or> between 216 222 n
     then char_of (n + 32) else c)"

definition upper_char :: "char \<Rightarrow> char" where
  \<comment> \<open>the upper-case form, where it is itself one of the 256 code points\<close>
  "upper_char c = (let n = code c in
     if between 97 122 n \<or> between 224 246 n \<or> between 248 254 n
     then char_of (n - 32) else c)"

definition lower :: "string \<Rightarrow> string" where
  \<comment> \<open>\<^verbatim>\<open>str.lower\<close>\<close>
  "lower s = map lower_char s"

definition strip_with :: "(char \<Rightarrow> bool) \<Rightarrow> string \<Rightarrow> string" where
  "strip_with P s = rev (dropWhile P (rev (dropWhile P s)))"

definition strip :: "string \<Rightarrow> string" where
  \<comment> \<open>\<^verbatim>\<open>s.strip()\<close>\<close>
  "strip s = strip_with is_space s"

definition strip_chars :: "string \<Rightarrow> string \<Rightarrow> string" where
  \<comment> \<open>\<^verbatim>\<open>s.strip(chars)\<close>\<close>
  "strip_chars cs s = strip_with (\<lambda>c. c \<in> set cs) s"

definition slice :: "nat \<Rightarrow> nat \<Rightarrow> string \<Rightarrow> string" where
  \<comment> \<open>\<^verbatim>\<open>s[b:e]\<close>\<close>
  "slice b e s = take (e - b) (drop b s)"

definition before_slash :: "string \<Rightarrow> string" where
  \<comment> \<open>\<^verbatim>\<open>s.split("/", 1)[0]\<close>\<close>
  "before_slash s = takeWhile (\<lambda>c. c \<noteq> CHR ''/'') s"


section \<open>Regular expressions\<close>

text \<open>
  The patterns of the program are given as their parse trees. In every pattern of the
  source a repetition (\<^verbatim>\<open>+\<close>, \<^verbatim>\<open>*?\<close>, \<^verbatim>\<open>?\<close>, \<^verbatim>\<open>{m,n}\<close>) applies to one
  character class, except the optional groups \<^verbatim>\<open>(?:...)?\<close>, which are \<open>Opt\<close>.
\<close>

datatype citem =
    CChar char
  | CRange char char
  | CWord
  | CSpace
  | CDigit

datatype atom =
    Chr char
  | Dot
  | In "citem list"
  | NotIn "citem list"

datatype regex =
    One atom
  | Rep atom nat "nat option" bool
  | Seq regex regex
  | Alt regex regex
  | Group string regex
  | Opt regex
  | WordB
  | Bol
  | Eol
  | Eps

text \<open>
  A character against an item of a class. With \<^verbatim>\<open>re.IGNORECASE\<close> (\<open>ic\<close>) a literal
  or a range also takes the other case of its characters.
\<close>

definition in_range :: "char \<Rightarrow> char \<Rightarrow> char \<Rightarrow> bool" where
  "in_range lo hi c = between (code lo) (code hi) (code c)"

fun citem_ok :: "bool \<Rightarrow> citem \<Rightarrow> char \<Rightarrow> bool" where
  "citem_ok ic (CChar a) c = (c = a \<or> (ic \<and> lower_char c = lower_char a))"
| "citem_ok ic (CRange lo hi) c =
     (in_range lo hi c \<or> (ic \<and> (in_range lo hi (lower_char c) \<or> in_range lo hi (upper_char c))))"
| "citem_ok ic CWord c = is_word c"
| "citem_ok ic CSpace c = is_space c"
| "citem_ok ic CDigit c = is_decimal c"

fun atom_ok :: "bool \<Rightarrow> atom \<Rightarrow> char \<Rightarrow> bool" where
  "atom_ok ic (Chr a) c = citem_ok ic (CChar a) c"
| "atom_ok ic Dot c = (c \<noteq> CHR 0x0A)"
| "atom_ok ic (In items) c = (\<exists>i \<in> set items. citem_ok ic i c)"
| "atom_ok ic (NotIn items) c = (\<not> (\<exists>i \<in> set items. citem_ok ic i c))"

text \<open>Named groups are recorded as spans \<open>(start, end)\<close> of the subject string.\<close>

type_synonym caps = "(string \<times> nat \<times> nat) list"

datatype frame = Match regex | Close string nat

text \<open>
  The backtracking matcher. What remains to be matched is a stack of frames: a regex, or
  the end of a named group that began at a position. The place in the subject is the
  character before the position (none at the start), the position, and the characters
  from the position on. A greedy repetition first takes one more character and falls
  back to what follows; a lazy one first tries what follows; an alternative and an
  optional group try their first branch first. The result is the spans of the groups.
\<close>

definition boundary :: "char option \<Rightarrow> string \<Rightarrow> bool" where
  \<comment> \<open>\<^verbatim>\<open>\b\<close>: a word character on exactly one side\<close>
  "boundary p cs =
     ((case p of None \<Rightarrow> False | Some c \<Rightarrow> is_word c)
      \<noteq> (case cs of [] \<Rightarrow> False | c # rest \<Rightarrow> is_word c))"

definition at_end :: "string \<Rightarrow> bool" where
  \<comment> \<open>\<^verbatim>\<open>$\<close>: the end of the string, or just before a newline that ends it\<close>
  "at_end cs = (cs = [] \<or> cs = [CHR 0x0A])"

fun dec :: "nat option \<Rightarrow> nat option" where
  "dec None = None"
| "dec (Some n) = Some (n - 1)"

fun weight :: "regex \<Rightarrow> nat" where
  "weight (Rep a lo hi greedy) = Suc lo"
| "weight (Seq r1 r2) = Suc (weight r1 + weight r2)"
| "weight (Alt r1 r2) = Suc (weight r1 + weight r2)"
| "weight (Group n r) = Suc (Suc (weight r))"
| "weight (Opt r) = Suc (weight r)"
| "weight r = Suc 0"

fun frame_weight :: "frame \<Rightarrow> nat" where
  "frame_weight (Match r) = weight r"
| "frame_weight (Close n b) = Suc 0"

function run :: "bool \<Rightarrow> frame list \<Rightarrow> char option \<Rightarrow> nat \<Rightarrow> string \<Rightarrow> caps \<Rightarrow> caps option" where
  "run ic [] p i cs g = Some g"
| "run ic (Close n b # fs) p i cs g = run ic fs p i cs (AList.update n (b, i) g)"
| "run ic (Match (One a) # fs) p i cs g =
     (case cs of
        [] \<Rightarrow> None
      | c # rest \<Rightarrow> if atom_ok ic a c then run ic fs (Some c) (Suc i) rest g else None)"
| "run ic (Match (Rep a lo hi greedy) # fs) p i cs g =
     (if 0 < lo then
        (case cs of
           [] \<Rightarrow> None
         | c # rest \<Rightarrow>
            if hi \<noteq> Some 0 \<and> atom_ok ic a c
            then run ic (Match (Rep a (lo - 1) (dec hi) greedy) # fs) (Some c) (Suc i) rest g
            else None)
      else if greedy then
        (case (case cs of
                 [] \<Rightarrow> None
               | c # rest \<Rightarrow>
                  if hi \<noteq> Some 0 \<and> atom_ok ic a c
                  then run ic (Match (Rep a 0 (dec hi) greedy) # fs) (Some c) (Suc i) rest g
                  else None) of
           Some x \<Rightarrow> Some x
         | None \<Rightarrow> run ic fs p i cs g)
      else
        (case run ic fs p i cs g of
           Some x \<Rightarrow> Some x
         | None \<Rightarrow>
            (case cs of
               [] \<Rightarrow> None
             | c # rest \<Rightarrow>
                if hi \<noteq> Some 0 \<and> atom_ok ic a c
                then run ic (Match (Rep a 0 (dec hi) greedy) # fs) (Some c) (Suc i) rest g
                else None)))"
| "run ic (Match (Seq r1 r2) # fs) p i cs g = run ic (Match r1 # Match r2 # fs) p i cs g"
| "run ic (Match (Alt r1 r2) # fs) p i cs g =
     (case run ic (Match r1 # fs) p i cs g of
        Some x \<Rightarrow> Some x
      | None \<Rightarrow> run ic (Match r2 # fs) p i cs g)"
| "run ic (Match (Group n r) # fs) p i cs g = run ic (Match r # Close n i # fs) p i cs g"
| "run ic (Match (Opt r) # fs) p i cs g =
     (case run ic (Match r # fs) p i cs g of
        Some x \<Rightarrow> Some x
      | None \<Rightarrow> run ic fs p i cs g)"
| "run ic (Match WordB # fs) p i cs g = (if boundary p cs then run ic fs p i cs g else None)"
| "run ic (Match Bol # fs) p i cs g = (if i = 0 then run ic fs p i cs g else None)"
| "run ic (Match Eol # fs) p i cs g = (if at_end cs then run ic fs p i cs g else None)"
| "run ic (Match Eps # fs) p i cs g = run ic fs p i cs g"
  by pat_completeness auto
termination
  by (relation "measures [\<lambda>(ic, fs, p, i, cs, g). sum_list (map frame_weight fs),
                          \<lambda>(ic, fs, p, i, cs, g). length cs]") auto

fun group_names :: "regex \<Rightarrow> string list" where
  "group_names (Seq r1 r2) = group_names r1 @ group_names r2"
| "group_names (Alt r1 r2) = group_names r1 @ group_names r2"
| "group_names (Group n r) = n # group_names r"
| "group_names (Opt r) = group_names r"
| "group_names r = []"

text \<open>The match object: the subject, the pattern's group names, and the spans.\<close>

record match_obj =
  subject :: string
  names :: "string list"
  spans :: caps

definition match_obj_of :: "string \<Rightarrow> regex \<Rightarrow> caps option \<Rightarrow> match_obj option" where
  "match_obj_of s r res = map_option (\<lambda>g. \<lparr>subject = s, names = group_names r, spans = g\<rparr>) res"

definition re_match :: "bool \<Rightarrow> regex \<Rightarrow> string \<Rightarrow> match_obj option" where
  \<comment> \<open>\<^verbatim>\<open>pattern.match(s)\<close>: at the start of the string only\<close>
  "re_match ic r s = match_obj_of s r (run ic [Match r] None 0 s [])"

fun scan :: "bool \<Rightarrow> regex \<Rightarrow> char option \<Rightarrow> nat \<Rightarrow> string \<Rightarrow> caps option" where
  \<comment> \<open>try the position, then each later one\<close>
  "scan ic r p i [] = run ic [Match r] p i [] []"
| "scan ic r p i (c # rest) =
     (case run ic [Match r] p i (c # rest) [] of
        Some g \<Rightarrow> Some g
      | None \<Rightarrow> scan ic r (Some c) (Suc i) rest)"

definition re_search :: "bool \<Rightarrow> regex \<Rightarrow> string \<Rightarrow> match_obj option" where
  \<comment> \<open>\<^verbatim>\<open>re.search\<close>: the match at the leftmost position that has one\<close>
  "re_search ic r s = match_obj_of s r (scan ic r None 0 s)"

text \<open>Shorthands for writing the patterns down.\<close>

definition seqs :: "regex list \<Rightarrow> regex" where
  "seqs rs = foldr Seq rs Eps"

definition lit :: "string \<Rightarrow> regex" where
  "lit s = seqs (map (\<lambda>c. One (Chr c)) s)"

definition one_or_more :: "atom \<Rightarrow> regex" where
  "one_or_more a = Rep a 1 None True"

definition lazy_any :: regex where
  \<comment> \<open>\<^verbatim>\<open>.*?\<close>\<close>
  "lazy_any = Rep Dot 0 None False"

definition counted :: "atom \<Rightarrow> nat \<Rightarrow> nat \<Rightarrow> regex" where
  \<comment> \<open>\<^verbatim>\<open>{m,n}\<close>\<close>
  "counted a m n = Rep a m (Some n) True"


section \<open>The instrument validator\<close>

definition upper_AZ :: atom where
  "upper_AZ = In [CRange CHR ''A'' CHR ''Z'']"

definition months :: regex where
  \<comment> \<open>\<^verbatim>\<open>_MONTHS\<close>\<close>
  "months = foldr Alt (map lit [''JAN'', ''FEB'', ''MAR'', ''APR'', ''MAY'', ''JUN'',
     ''JUL'', ''AUG'', ''SEP'', ''OCT'', ''NOV'']) (lit ''DEC'')"

definition RE_FUT_MMMYY :: regex where
  "RE_FUT_MMMYY = seqs [Bol, counted upper_AZ 1 6, one_or_more (In [CSpace]), months,
     counted (In [CSpace]) 0 1, counted (In [CDigit]) 2 2, Eol]"

definition RE_FUT_MMYY :: regex where
  "RE_FUT_MMYY = seqs [Bol, counted upper_AZ 1 6, one_or_more (In [CSpace]),
     counted (In [CDigit]) 2 2, One (Chr CHR ''-''), counted (In [CDigit]) 2 2, Eol]"

definition RE_SYMBOL :: regex where
  "RE_SYMBOL = seqs [Bol, counted upper_AZ 1 6, Eol]"

definition valid_instrument :: "string \<Rightarrow> bool" where
  \<comment> \<open>the test of lines 257--261 and of line 466: one of the three compiled patterns matches\<close>
  "valid_instrument s =
     (re_match False RE_FUT_MMMYY s \<noteq> None \<or> re_match False RE_FUT_MMYY s \<noteq> None
      \<or> re_match False RE_SYMBOL s \<noteq> None)"

definition validate_instrument :: "string \<Rightarrow> string" where
  \<comment> \<open>lines 256--262 and 466--467: a non-empty instrument that fails the test is cleared\<close>
  "validate_instrument s = (if s \<noteq> [] \<and> \<not> valid_instrument s then [] else s)"


section \<open>Patterns\<close>

text \<open>
  A pattern of the configuration is a string that \<^verbatim>\<open>re.search\<close> compiles when it
  is first used: either it has a parse tree, or \<^verbatim>\<open>re\<close> rejects it with
  \<^verbatim>\<open>re.error\<close>. The group names of a compiled pattern are taken to be distinct,
  as \<^verbatim>\<open>re\<close> requires.
\<close>

datatype error = ReError | IndexError

datatype pattern = Pat regex | Malformed

record patterns =
  pat_enabled :: "pattern list"
  pat_disabled :: "pattern list"
  pat_extractors :: "string \<Rightarrow> pattern list"

definition sp :: atom where
  "sp = In [CSpace]"

definition quoted_name :: regex where
  \<comment> \<open>\<^verbatim>\<open>'(?P<name>[^']+)'\<close>\<close>
  "quoted_name = seqs [One (Chr CHR 0x27),
     Group ''name'' (one_or_more (NotIn [CChar CHR 0x27])), One (Chr CHR 0x27)]"

definition bare_name :: regex where
  \<comment> \<open>\<^verbatim>\<open>(?P<name>[A-Za-z0-9_\-\.]+)\<close>\<close>
  "bare_name = Group ''name'' (one_or_more (In [CRange CHR ''A'' CHR ''Z'',
     CRange CHR ''a'' CHR ''z'', CRange CHR ''0'' CHR ''9'',
     CChar CHR ''_'', CChar CHR ''-'', CChar CHR ''.'']))"

definition instrument_group :: regex where
  \<comment> \<open>\<^verbatim>\<open>(?P<instrument>[A-Z0-9]{1,6}(?:\s+[A-Z]{3}\d{2})?)\<close>\<close>
  "instrument_group = Group ''instrument''
     (Seq (counted (In [CRange CHR ''A'' CHR ''Z'', CRange CHR ''0'' CHR ''9'']) 1 6)
          (Opt (seqs [one_or_more sp, counted upper_AZ 3 3, counted (In [CDigit]) 2 2])))"

definition value_class :: atom where
  \<comment> \<open>\<^verbatim>\<open>[\w\s\-\.\#]\<close>\<close>
  "value_class = In [CWord, CSpace, CChar CHR ''-'', CChar CHR ''.'', CChar CHR ''#'']"

definition connection_group :: regex where
  "connection_group = Group ''connection'' (one_or_more value_class)"

definition enabled_1 :: regex where
  "enabled_1 = seqs [WordB, lit ''enabling'', one_or_more sp, lit ''ninjascript'',
     one_or_more sp, lit ''strategy'', one_or_more sp, quoted_name]"

definition enabled_2 :: regex where
  "enabled_2 = seqs [lit ''strategy'', one_or_more sp, quoted_name, lazy_any,
     WordB, lit ''on'', WordB, one_or_more sp, instrument_group, WordB, lazy_any,
     WordB, lit ''enabled'', WordB, lazy_any,
     Alt (lit ''connection'') (lit ''account''), one_or_more sp, connection_group]"

definition enabled_3 :: regex where
  "enabled_3 = seqs [WordB, lit ''enabled'', WordB, lazy_any, lit ''strategy'',
     one_or_more sp, quoted_name, lazy_any, WordB, lit ''for'', WordB, one_or_more sp,
     instrument_group, WordB, lazy_any,
     Alt (lit ''via'') (Alt (lit ''on'') (lit ''connection'')), one_or_more sp, connection_group]"

definition enabled_4 :: regex where
  "enabled_4 = seqs [lit ''strategy'', one_or_more sp, bare_name, lazy_any,
     WordB, lit ''enabled'', WordB, Opt (Seq lazy_any instrument_group),
     Opt (seqs [lazy_any, Alt (lit ''connection'') (lit ''via''), one_or_more sp,
       connection_group])]"

definition disabled_1 :: regex where
  "disabled_1 = seqs [WordB, lit ''disabling'', one_or_more sp, lit ''ninjascript'',
     one_or_more sp, lit ''strategy'', one_or_more sp, quoted_name]"

definition disabled_2 :: regex where
  "disabled_2 = seqs [lit ''strategy'', one_or_more sp, quoted_name, lazy_any,
     WordB, lit ''on'', WordB, one_or_more sp, instrument_group, WordB, lazy_any,
     WordB, lit ''disabled'', WordB, lazy_any,
     Alt (lit ''connection'') (lit ''account''), one_or_more sp, connection_group]"

definition disabled_3 :: regex where
  "disabled_3 = seqs [WordB, lit ''disabled'', WordB, lazy_any, lit ''strategy'',
     one_or_more sp, quoted_name, lazy_any, WordB, lit ''for'', WordB, one_or_more sp,
     instrument_group, WordB, lazy_any,
     Alt (lit ''via'') (Alt (lit ''on'') (lit ''connection'')), one_or_more sp, connection_group]"

definition disabled_4 :: regex where
  "disabled_4 = seqs [WordB, lit ''disabled'', WordB, lazy_any, lit ''strategy'',
     one_or_more sp, quoted_name, Opt (Seq lazy_any instrument_group),
     Opt (seqs [lazy_any, Alt (lit ''connection'') (Alt (lit ''via'') (lit ''on'')),
       one_or_more sp, connection_group])]"

definition disabled_5 :: regex where
  "disabled_5 = seqs [lit ''strategy'', one_or_more sp, bare_name, lazy_any,
     WordB, lit ''disabled'', WordB, Opt (Seq lazy_any instrument_group),
     Opt (seqs [lazy_any, Alt (lit ''connection'') (lit ''via''), one_or_more sp,
       connection_group])]"

definition fut_mmmyy :: regex where
  \<comment> \<open>\<^verbatim>\<open>(?P<instrument>[A-Z]{1,6}\s+(?:JAN|...|DEC)\s?\d{2})\b\<close>\<close>
  "fut_mmmyy = Seq (Group ''instrument'' (seqs [counted upper_AZ 1 6, one_or_more sp,
     months, counted sp 0 1, counted (In [CDigit]) 2 2])) WordB"

definition fut_mmyy :: regex where
  \<comment> \<open>\<^verbatim>\<open>(?P<instrument>[A-Z]{1,6}\s+\d{2}-\d{2})\b\<close>\<close>
  "fut_mmyy = Seq (Group ''instrument'' (seqs [counted upper_AZ 1 6, one_or_more sp,
     counted (In [CDigit]) 2 2, One (Chr CHR ''-''), counted (In [CDigit]) 2 2])) WordB"

definition symbol_only :: regex where
  \<comment> \<open>\<^verbatim>\<open>(?P<instrument>[A-Z]{1,6})\b\<close>\<close>
  "symbol_only = Seq (Group ''instrument'' (counted upper_AZ 1 6)) WordB"

definition after_word :: "string \<Rightarrow> regex \<Rightarrow> regex" where
  \<comment> \<open>\<^verbatim>\<open>\bon\s+...\<close>, \<^verbatim>\<open>\bfor\s+...\<close>\<close>
  "after_word w r = seqs [WordB, lit w, one_or_more sp, r]"

definition default_extractors :: "string \<Rightarrow> pattern list" where
  "default_extractors field =
     (if field = ''name'' then
        [Pat (seqs [lit ''strategy'', one_or_more sp, quoted_name]),
         Pat (seqs [lit ''strategy'', one_or_more sp, bare_name])]
      else if field = ''instrument'' then
        [Pat (after_word ''on'' fut_mmmyy), Pat (after_word ''on'' fut_mmyy),
         Pat (after_word ''for'' fut_mmmyy), Pat (after_word ''for'' fut_mmyy),
         Pat (after_word ''on'' symbol_only), Pat (after_word ''for'' symbol_only)]
      else if field = ''connection'' then
        [Pat (seqs [Alt (lit ''connection'') (lit ''via''), one_or_more sp, connection_group])]
      else if field = ''account'' then
        [Pat (seqs [lit ''account'', one_or_more sp, Group ''account'' (one_or_more value_class)])]
      else [])"

definition DEFAULT_PATTERNS :: patterns where
  "DEFAULT_PATTERNS = \<lparr>
     pat_enabled = [Pat enabled_1, Pat enabled_2, Pat enabled_3, Pat enabled_4],
     pat_disabled = [Pat disabled_1, Pat disabled_2, Pat disabled_3, Pat disabled_4,
       Pat disabled_5],
     pat_extractors = default_extractors \<rparr>"

definition search :: "pattern \<Rightarrow> string \<Rightarrow> error + match_obj option" where
  \<comment> \<open>\<^verbatim>\<open>re.search(pat, low, re.IGNORECASE)\<close>\<close>
  "search p s = (case p of Malformed \<Rightarrow> Inl ReError | Pat r \<Rightarrow> Inr (re_search True r s))"

definition group :: "match_obj \<Rightarrow> string \<Rightarrow> error + string option" where
  \<comment> \<open>\<^verbatim>\<open>m.group(k)\<close>: raises for a name the pattern does not have, is None for a
     group that took no part in the match\<close>
  "group m k =
     (if k \<in> set (names m)
      then Inr (map_option (\<lambda>(b, e). slice b e (subject m)) (map_of (spans m) k))
      else Inl IndexError)"

definition or_empty :: "string option \<Rightarrow> string" where
  \<comment> \<open>\<^verbatim>\<open>x or ""\<close>\<close>
  "or_empty v = (case v of None \<Rightarrow> [] | Some x \<Rightarrow> x)"


section \<open>The pattern matcher\<close>

text \<open>
  The status dictionary has the key \<^verbatim>\<open>enabled\<close> with a boolean and the keys
  \<^verbatim>\<open>name\<close>, \<^verbatim>\<open>instrument\<close>, \<^verbatim>\<open>connection\<close>, \<^verbatim>\<open>account\<close> with
  strings; each may be absent.
\<close>

record status =
  d_enabled :: "bool option"
  d_strs :: "string \<rightharpoonup> string"

definition empty_status :: status where
  "empty_status = \<lparr>d_enabled = None, d_strs = Map.empty\<rparr>"

fun capture_fields :: "match_obj \<Rightarrow> string list \<Rightarrow> error + (string \<rightharpoonup> string)" where
  "capture_fields m [] = Inr Map.empty"
| "capture_fields m (k # ks) =
     (if k \<in> set (names m) then
        (case group m k of
           Inl e \<Rightarrow> Inl e
         | Inr v \<Rightarrow>
            (case capture_fields m ks of
               Inl e \<Rightarrow> Inl e
             | Inr gd \<Rightarrow> Inr (gd(k \<mapsto> strip (or_empty v)))))
      else capture_fields m ks)"

definition normalize_name :: "(string \<rightharpoonup> string) \<Rightarrow> (string \<rightharpoonup> string)" where
  "normalize_name gd =
     (case gd ''name'' of
        None \<Rightarrow> gd
      | Some n \<Rightarrow> if CHR ''/'' \<in> set n then gd(''name'' \<mapsto> before_slash n) else gd)"

definition status_of_match :: "bool \<Rightarrow> match_obj \<Rightarrow> error + status" where
  "status_of_match en m =
     (case capture_fields m [''name'', ''instrument'', ''connection''] of
        Inl e \<Rightarrow> Inl e
      | Inr gd \<Rightarrow> Inr \<lparr>d_enabled = Some en, d_strs = normalize_name gd\<rparr>)"

fun try_patterns :: "bool \<Rightarrow> pattern list \<Rightarrow> string \<Rightarrow> error + status option" where
  "try_patterns en [] low = Inr None"
| "try_patterns en (p # ps) low =
     (case search p low of
        Inl e \<Rightarrow> Inl e
      | Inr None \<Rightarrow> try_patterns en ps low
      | Inr (Some m) \<Rightarrow>
         (case status_of_match en m of Inl e \<Rightarrow> Inl e | Inr st \<Rightarrow> Inr (Some st)))"

definition parse_with_patterns :: "string \<Rightarrow> patterns \<Rightarrow> error + (bool \<times> status)" where
  "parse_with_patterns line pats =
     (let low = lower line in
      case try_patterns True (pat_enabled pats) low of
        Inl e \<Rightarrow> Inl e
      | Inr (Some st) \<Rightarrow> Inr (True, st)
      | Inr None \<Rightarrow>
         (case try_patterns False (pat_disabled pats) low of
            Inl e \<Rightarrow> Inl e
          | Inr (Some st) \<Rightarrow> Inr (True, st)
          | Inr None \<Rightarrow> Inr (False, empty_status)))"


section \<open>The field completer\<close>

definition FIELDS :: "string list" where
  "FIELDS = [''name'', ''instrument'', ''connection'', ''account'']"

fun first_extract :: "string \<Rightarrow> pattern list \<Rightarrow> string \<Rightarrow> error + string option" where
  "first_extract field [] low = Inr None"
| "first_extract field (p # ps) low =
     (case search p low of
        Inl e \<Rightarrow> Inl e
      | Inr None \<Rightarrow> first_extract field ps low
      | Inr (Some m) \<Rightarrow>
         (if field \<in> set (names m)
          then (case group m field of Inl e \<Rightarrow> Inl e | Inr v \<Rightarrow> Inr (Some (strip (or_empty v))))
          else first_extract field ps low))"

definition truthy :: "string option \<Rightarrow> bool" where
  \<comment> \<open>the truth value of \<^verbatim>\<open>status.get(field)\<close>\<close>
  "truthy v = (case v of None \<Rightarrow> False | Some x \<Rightarrow> x \<noteq> [])"

fun fill_fields ::
  "string list \<Rightarrow> (string \<Rightarrow> pattern list) \<Rightarrow> string \<Rightarrow> (string \<rightharpoonup> string)
     \<Rightarrow> error + (string \<rightharpoonup> string)" where
  "fill_fields [] ex low d = Inr d"
| "fill_fields (f # fs) ex low d =
     (if truthy (d f) then fill_fields fs ex low d
      else (case first_extract f (ex f) low of
              Inl e \<Rightarrow> Inl e
            | Inr None \<Rightarrow> fill_fields fs ex low d
            | Inr (Some v) \<Rightarrow> fill_fields fs ex low (d(f \<mapsto> v))))"

definition trim_fields :: "(string \<rightharpoonup> string) \<Rightarrow> (string \<rightharpoonup> string)" where
  \<comment> \<open>the sanity trims\<close>
  "trim_fields d =
     (\<lambda>k. if k \<in> set FIELDS then map_option (strip_chars '' :;,-[]()'') (d k) else d k)"

definition check_instrument :: "(string \<rightharpoonup> string) \<Rightarrow> (string \<rightharpoonup> string)" where
  "check_instrument d =
     (case d ''instrument'' of
        None \<Rightarrow> d
      | Some i \<Rightarrow> if i \<noteq> [] \<and> \<not> valid_instrument i then d(''instrument'' \<mapsto> []) else d)"

definition fill_missing_fields :: "string \<Rightarrow> status \<Rightarrow> patterns \<Rightarrow> error + status" where
  "fill_missing_fields line st pats =
     (let low = lower line in
      case fill_fields FIELDS (pat_extractors pats) low (d_strs st) of
        Inl e \<Rightarrow> Inl e
      | Inr d \<Rightarrow> Inr (st\<lparr>d_strs := check_instrument (trim_fields d)\<rparr>))"


section \<open>The status table and the snapshot\<close>

record StrategyStatus =
  name :: string
  instrument :: string
  enabled :: bool
  connection :: string
  account :: string

text \<open>
  The table is a Python dictionary from \<open>(name, instrument)\<close> to the record. A dictionary
  keeps its keys in the order of their first insertion, and \<^verbatim>\<open>values()\<close> lists them
  in that order: an association list, updated in place.
\<close>

type_synonym table = "((string \<times> string) \<times> StrategyStatus) list"

record snapshot =
  updated_at :: int
  strategies :: "StrategyStatus list"

definition sort_key_of :: "StrategyStatus \<Rightarrow> string \<times> string" where
  "sort_key_of s = (lower (name s), lower (instrument s))"

definition statuses_to_json :: "int \<Rightarrow> table \<Rightarrow> snapshot" where
  \<comment> \<open>the first argument is what \<^verbatim>\<open>datetime.now()\<close> returns\<close>
  "statuses_to_json now statuses =
     \<lparr>updated_at = now, strategies = sort_key sort_key_of (map snd statuses)\<rparr>"


section \<open>The reconciliation loop\<close>

record config =
  match_strategies :: "string list"
  cfg_patterns :: patterns
  email_on_change :: bool
  cooldown :: int

text \<open>
  What one iteration finds outside the program: the clock, and whether writing the snapshot
  file and sending the mail succeed (each is called inside its own \<^verbatim>\<open>try\<close>).
\<close>

record env =
  now :: int
  write_ok :: bool
  email_ok :: bool

record monitor =
  statuses :: table
  last_json_write :: "int option"
  last_email_time :: "int option"

datatype event =
    Warn_no_name string
  | Change string string bool string
  | Write_snapshot snapshot
  | Json_updated nat
  | Json_failed
  | Publish string string bool string
  | Send_email string string bool string
  | Email_failed
  | Line_error error string
  | Initial_failed error

fun contains :: "string \<Rightarrow> string \<Rightarrow> bool" where
  \<comment> \<open>\<^verbatim>\<open>sub in s\<close>\<close>
  "contains [] sub = (sub = [])"
| "contains (c # cs) sub = (take (length sub) (c # cs) = sub \<or> contains cs sub)"

definition requires_any :: "string \<Rightarrow> string list \<Rightarrow> bool" where
  "requires_any text subs =
     (if subs = [] then True
      else (let low = lower text in \<exists>s \<in> set subs. contains low (lower s)))"

definition get_str :: "status \<Rightarrow> string \<Rightarrow> string" where
  \<comment> \<open>\<^verbatim>\<open>status.get(k, "")\<close>\<close>
  "get_str st k = or_empty (d_strs st k)"

definition make_status :: "status \<Rightarrow> string \<Rightarrow> StrategyStatus" where
  "make_status st instr =
     \<lparr>name = get_str st ''name'', instrument = instr,
      enabled = (d_enabled st = Some True),
      connection = get_str st ''connection'', account = get_str st ''account''\<rparr>"

definition changed :: "StrategyStatus option \<Rightarrow> StrategyStatus \<Rightarrow> bool" where
  "changed prev new =
     (case prev of
        None \<Rightarrow> True
      | Some p \<Rightarrow> enabled p \<noteq> enabled new \<or> connection p \<noteq> connection new
                  \<or> instrument p \<noteq> instrument new)"

definition can_email :: "monitor \<Rightarrow> config \<Rightarrow> env \<Rightarrow> bool" where
  "can_email st cfg ev =
     (case last_email_time st of None \<Rightarrow> True | Some t \<Rightarrow> now ev - t > cooldown cfg)"

definition apply_change :: "config \<Rightarrow> env \<Rightarrow> StrategyStatus \<Rightarrow> monitor \<Rightarrow> monitor \<times> event list" where
  \<comment> \<open>the body of \<^verbatim>\<open>if changed:\<close>\<close>
  "apply_change cfg ev new st =
     (let tbl = AList.update (name new, instrument new) new (statuses st);
          st1 = st\<lparr>statuses := tbl\<rparr>;
          st2 = (if write_ok ev then st1\<lparr>last_json_write := Some (now ev)\<rparr> else st1);
          mail = (email_on_change cfg \<and> can_email st cfg ev);
          st3 = (if mail \<and> email_ok ev then st2\<lparr>last_email_time := Some (now ev)\<rparr> else st2)
      in (st3,
          [Change (name new) (instrument new) (enabled new) (connection new),
           Write_snapshot (statuses_to_json (now ev) tbl),
           (if write_ok ev then Json_updated (length tbl) else Json_failed),
           Publish (name new) (instrument new) (enabled new) (connection new)]
          @ (if mail then [Send_email (name new) (instrument new) (enabled new) (connection new)]
             else [])
          @ (if mail \<and> \<not> email_ok ev then [Email_failed] else [])))"

definition process_line :: "config \<Rightarrow> env \<Rightarrow> string \<Rightarrow> monitor \<Rightarrow> error + (monitor \<times> event list)" where
  \<comment> \<open>the body of the \<^verbatim>\<open>try\<close> of the loop\<close>
  "process_line cfg ev raw_line st =
     (if raw_line = [] then Inr (st, [])
      else if match_strategies cfg \<noteq> [] \<and> \<not> requires_any raw_line (match_strategies cfg)
      then Inr (st, [])
      else
        (case parse_with_patterns raw_line (cfg_patterns cfg) of
           Inl e \<Rightarrow> Inl e
         | Inr (matched, status0) \<Rightarrow>
            if \<not> matched then Inr (st, [])
            else
              (case fill_missing_fields raw_line status0 (cfg_patterns cfg) of
                 Inl e \<Rightarrow> Inl e
               | Inr status \<Rightarrow>
                  if \<not> truthy (d_strs status ''name'') then Inr (st, [Warn_no_name raw_line])
                  else
                    (let new = make_status status (validate_instrument (get_str status ''instrument''));
                         prev = map_of (statuses st) (name new, instrument new)
                     in if changed prev new then Inr (apply_change cfg ev new st)
                        else Inr (st, [])))))"

definition loop_step :: "config \<Rightarrow> env \<Rightarrow> string \<Rightarrow> monitor \<Rightarrow> monitor \<times> event list" where
  \<comment> \<open>one iteration: the body inside \<^verbatim>\<open>try\<close>, and the \<^verbatim>\<open>except Exception\<close>\<close>
  "loop_step cfg ev raw_line st =
     (case process_line cfg ev raw_line st of
        Inl e \<Rightarrow> (st, [Line_error e raw_line])
      | Inr r \<Rightarrow> r)"

fun run_lines :: "config \<Rightarrow> (env \<times> string) list \<Rightarrow> monitor \<Rightarrow> monitor \<times> event list" where
  "run_lines cfg [] st = (st, [])"
| "run_lines cfg ((ev, l) # rest) st =
     (let (st1, out1) = loop_step cfg ev l st;
          (st2, out2) = run_lines cfg rest st1
      in (st2, out1 @ out2))"

fun build_initial_statuses :: "string list \<Rightarrow> patterns \<Rightarrow> string list \<Rightarrow> table \<Rightarrow> error + table" where
  \<comment> \<open>the loop over the lines of the log's tail; the last argument is the dictionary
     built so far, empty at the start\<close>
  "build_initial_statuses [] pats ms tbl = Inr tbl"
| "build_initial_statuses (raw_line # rest) pats ms tbl =
     (if raw_line = [] then build_initial_statuses rest pats ms tbl
      else if ms \<noteq> [] \<and> \<not> requires_any raw_line ms then build_initial_statuses rest pats ms tbl
      else
        (case parse_with_patterns raw_line pats of
           Inl e \<Rightarrow> Inl e
         | Inr (matched, status0) \<Rightarrow>
            if \<not> matched then build_initial_statuses rest pats ms tbl
            else
              (case fill_missing_fields raw_line status0 pats of
                 Inl e \<Rightarrow> Inl e
               | Inr status \<Rightarrow>
                  if \<not> truthy (d_strs status ''name'') then build_initial_statuses rest pats ms tbl
                  else
                    (let new = make_status status (get_str status ''instrument'')
                     in build_initial_statuses rest pats ms
                          (AList.update (name new, instrument new) new tbl)))))"

definition start :: "config \<Rightarrow> env \<Rightarrow> string list \<Rightarrow> monitor \<times> event list" where
  \<comment> \<open>the initial snapshot of \<^verbatim>\<open>run_strategy_status_monitor\<close>, from the lines of the tail\<close>
  "start cfg ev tail_lines =
     (case build_initial_statuses tail_lines (cfg_patterns cfg) (match_strategies cfg) [] of
        Inl e \<Rightarrow> (\<lparr>statuses = [], last_json_write = None, last_email_time = None\<rparr>,
                  [Initial_failed e])
      | Inr tbl \<Rightarrow>
         (\<lparr>statuses = tbl, last_json_write = (if write_ok ev then Some (now ev) else None),
           last_email_time = None\<rparr>,
          [Write_snapshot (statuses_to_json (now ev) tbl),
           (if write_ok ev then Json_updated (length tbl) else Json_failed)]))"

definition run_strategy_status_monitor ::
  "config \<Rightarrow> env \<Rightarrow> string list \<Rightarrow> (env \<times> string) list \<Rightarrow> monitor \<times> event list" where
  \<comment> \<open>the monitor on the lines of the tail and then the first lines the tailer yields\<close>
  "run_strategy_status_monitor cfg ev0 tail_lines live =
     (let (st0, out0) = start cfg ev0 tail_lines;
          (st1, out1) = run_lines cfg live st0
      in (st1, out0 @ out1))"


section \<open>Notions used to state the properties\<close>

definition DEFAULT_CONFIG :: config where
  \<comment> \<open>\<^verbatim>\<open>DEFAULT_CONFIG["strategy_status_watch"]\<close>; the clock counts microseconds\<close>
  "DEFAULT_CONFIG = \<lparr>match_strategies = [], cfg_patterns = DEFAULT_PATTERNS,
     email_on_change = False, cooldown = 60000000\<rparr>"

definition fresh :: monitor where
  \<comment> \<open>the state of the monitor before the first line\<close>
  "fresh = \<lparr>statuses = [], last_json_write = None, last_email_time = None\<rparr>"

definition matches :: "pattern \<Rightarrow> string \<Rightarrow> bool" where
  \<comment> \<open>the line matches the pattern, as \<^verbatim>\<open>parse_with_patterns\<close> tests it\<close>
  "matches p line = (case search p (lower line) of Inr (Some m) \<Rightarrow> True | _ \<Rightarrow> False)"

definition status_view :: "status \<Rightarrow> bool option \<times> string option list" where
  \<comment> \<open>the entries of a status dictionary: \<^verbatim>\<open>enabled\<close>, then the four string fields\<close>
  "status_view st = (d_enabled st, map (d_strs st) FIELDS)"

definition parse_view :: "string \<Rightarrow> patterns \<Rightarrow> error + (bool \<times> bool option \<times> string option list)" where
  "parse_view line pats =
     (case parse_with_patterns line pats of
        Inl e \<Rightarrow> Inl e
      | Inr (b, st) \<Rightarrow> Inr (b, status_view st))"

definition ALPHA_LINE :: string where
  "ALPHA_LINE = ''Strategy 'Alpha' on MGC DEC25 enabled on connection Sim101''"

definition FOO_LINE :: string where
  "FOO_LINE = ''Enabling NinjaScript strategy 'Foo/12345'' @ [CHR 0x27]"


definition STRICT_AND_LOOSE_LINE :: string where
  "STRICT_AND_LOOSE_LINE
     = ''Disabling NinjaScript strategy 'Bar/1' (strategy Foo enabled, Baz disabled)''"

definition by_name_then_instrument :: "StrategyStatus \<Rightarrow> StrategyStatus \<Rightarrow> bool" where
  \<comment> \<open>the order of the snapshot: lower-cased names, and lower-cased instruments under
     equal lower-cased names; strings compare by code points, as Python's do\<close>
  "by_name_then_instrument a b =
     (lower (name a) < lower (name b)
      \<or> (lower (name a) = lower (name b) \<and> lower (instrument a) \<le> lower (instrument b)))"

definition entry :: "string \<Rightarrow> string \<Rightarrow> StrategyStatus" where
  "entry n i = \<lparr>name = n, instrument = i, enabled = True, connection = [], account = []\<rparr>"

definition env0 :: env where
  "env0 = \<lparr>now = 0, write_ok = True, email_ok = True\<rparr>"


definition line_record :: "config \<Rightarrow> string \<Rightarrow> StrategyStatus option" where
  \<comment> \<open>the record a line yields in the loop: defined when the line is not empty, passes the
     allow-list, matches a pattern and has a name\<close>
  "line_record cfg raw_line =
     (if raw_line = [] then None
      else if match_strategies cfg \<noteq> [] \<and> \<not> requires_any raw_line (match_strategies cfg) then None
      else
        (case parse_with_patterns raw_line (cfg_patterns cfg) of
           Inl e \<Rightarrow> None
         | Inr (matched, status0) \<Rightarrow>
            if \<not> matched then None
            else
              (case fill_missing_fields raw_line status0 (cfg_patterns cfg) of
                 Inl e \<Rightarrow> None
               | Inr status \<Rightarrow>
                  if \<not> truthy (d_strs status ''name'') then None
                  else Some (make_status status (validate_instrument (get_str status ''instrument''))))))"

fun is_change :: "event \<Rightarrow> bool" where
  "is_change (Change n i e c) = True"
| "is_change ev = False"

fun is_write :: "event \<Rightarrow> bool" where
  "is_write (Write_snapshot js) = True"
| "is_write ev = False"

definition changes :: "event list \<Rightarrow> nat" where
  \<comment> \<open>the number of change notices\<close>
  "changes out = length (filter is_change out)"

definition writes :: "event list \<Rightarrow> nat" where
  \<comment> \<open>the number of snapshot writes\<close>
  "writes out = length (filter is_write out)"

definition differs :: "StrategyStatus option \<Rightarrow> StrategyStatus \<Rightarrow> bool" where
  \<comment> \<open>no record is stored, or the stored one differs in enabled, connection or instrument\<close>
  "differs prev new =
     (prev = None
      \<or> (\<exists>p. prev = Some p \<and> (enabled p \<noteq> enabled new \<or> connection p \<noteq> connection new
                \<or> instrument p \<noteq> instrument new)))"

definition FOO_ENABLED :: StrategyStatus where
  "FOO_ENABLED = \<lparr>name = ''foo'', instrument = [], enabled = True, connection = [], account = []\<rparr>"

definition ALPHA :: StrategyStatus where
  "ALPHA = \<lparr>name = ''alpha'', instrument = [], enabled = True, connection = ''sim101'', account = []\<rparr>"

definition holding :: "StrategyStatus \<Rightarrow> monitor" where
  \<comment> \<open>the monitor with one record in its table\<close>
  "holding r = \<lparr>statuses = [((name r, instrument r), r)], last_json_write = Some 0,
     last_email_time = None\<rparr>"


definition all_upper :: "string \<Rightarrow> bool" where
  \<comment> \<open>every character of the string is one of the letters A to Z\<close>
  "all_upper s = (\<forall>c \<in> set s. between 65 90 (code c))"

fun within :: "nat option \<Rightarrow> nat \<Rightarrow> bool" where
  \<comment> \<open>a count is within the upper bound of a repetition\<close>
  "within None n = True"
| "within (Some h) n = (n \<le> h)"

fun prev_after :: "char option \<Rightarrow> string \<Rightarrow> char option" where
  \<comment> \<open>the character before the position, after the string has been read\<close>
  "prev_after p [] = p"
| "prev_after p (c # cs) = prev_after (Some c) cs"

definition MONTHS :: "string list" where
  \<comment> \<open>the month abbreviations of \<^verbatim>\<open>_MONTHS\<close>\<close>
  "MONTHS = [''JAN'', ''FEB'', ''MAR'', ''APR'', ''MAY'', ''JUN'', ''JUL'', ''AUG'', ''SEP'',
     ''OCT'', ''NOV'', ''DEC'']"

definition symbol_part :: "string \<Rightarrow> bool" where
  \<comment> \<open>one to six of the letters A to Z\<close>
  "symbol_part sy = (1 \<le> length sy \<and> length sy \<le> 6 \<and> all_upper sy)"

definition blanks :: "string \<Rightarrow> bool" where
  \<comment> \<open>one or more white-space characters\<close>
  "blanks ws = (1 \<le> length ws \<and> (\<forall>c \<in> set ws. is_space c))"

definition at_most_one_blank :: "string \<Rightarrow> bool" where
  \<comment> \<open>no character, or one white-space character\<close>
  "at_most_one_blank ws = (length ws \<le> 1 \<and> (\<forall>c \<in> set ws. is_space c))"

definition two_digits :: "string \<Rightarrow> bool" where
  \<comment> \<open>two decimal digits\<close>
  "two_digits ds = (length ds = 2 \<and> (\<forall>c \<in> set ds. is_decimal c))"

definition final_newline :: "string \<Rightarrow> bool" where
  \<comment> \<open>nothing, or one newline\<close>
  "final_newline nl = (nl = [] \<or> nl = [CHR 0x0A])"

definition shape_mmmyy :: "string \<Rightarrow> bool" where
  \<comment> \<open>letters, white space, a month, at most one white-space character, two digits\<close>
  "shape_mmmyy s =
     (\<exists>sy ws mon ows ds nl. s = sy @ ws @ mon @ ows @ ds @ nl \<and> symbol_part sy \<and> blanks ws
        \<and> mon \<in> set MONTHS \<and> at_most_one_blank ows \<and> two_digits ds \<and> final_newline nl)"

definition shape_mmyy :: "string \<Rightarrow> bool" where
  \<comment> \<open>letters, white space, two digits, a dash, two digits\<close>
  "shape_mmyy s =
     (\<exists>sy ws ds1 ds2 nl. s = sy @ ws @ ds1 @ ''-'' @ ds2 @ nl \<and> symbol_part sy \<and> blanks ws
        \<and> two_digits ds1 \<and> two_digits ds2 \<and> final_newline nl)"

definition shape_symbol :: "string \<Rightarrow> bool" where
  \<comment> \<open>letters alone\<close>
  "shape_symbol s = (\<exists>sy nl. s = sy @ nl \<and> symbol_part sy \<and> final_newline nl)"

definition accepted_shape :: "string \<Rightarrow> bool" where
  \<comment> \<open>the three shapes, each with an optional final newline\<close>
  "accepted_shape s = (shape_mmmyy s \<or> shape_mmyy s \<or> shape_symbol s)"

text \<open>
  The three shapes as the specification words them: one to six letters; then nothing, or
  one space and either a month abbreviation, an optional space and two digits, or two
  digits, a dash and two digits.
\<close>

definition is_letter :: "char \<Rightarrow> bool" where
  "is_letter c = (between 65 90 (code c) \<or> between 97 122 (code c))"

definition worded_digits :: "string \<Rightarrow> bool" where
  "worded_digits ds = (length ds = 2 \<and> list_all is_decimal ds)"

definition worded_month_form :: "string \<Rightarrow> bool" where
  "worded_month_form t =
     (take 3 t \<in> set MONTHS
      \<and> (worded_digits (drop 3 t) \<or> (take 1 (drop 3 t) = '' '' \<and> worded_digits (drop 4 t))))"

definition worded_numeric_form :: "string \<Rightarrow> bool" where
  "worded_numeric_form t =
     (worded_digits (take 2 t) \<and> take 1 (drop 2 t) = ''-'' \<and> worded_digits (drop 3 t))"

definition worded_shape :: "string \<Rightarrow> bool" where
  "worded_shape s =
     (let sy = takeWhile (\<lambda>c. c \<noteq> CHR '' '') s; rest = dropWhile (\<lambda>c. c \<noteq> CHR '' '') s
      in 1 \<le> length sy \<and> length sy \<le> 6 \<and> list_all is_letter sy
         \<and> (rest = [] \<or> worded_month_form (tl rest) \<or> worded_numeric_form (tl rest)))"

definition no_upper :: "string \<Rightarrow> bool" where
  \<comment> \<open>no character of the string is one of the letters A to Z\<close>
  "no_upper s = (\<forall>c \<in> set s. \<not> between 65 90 (code c))"

definition lowered :: "(string \<rightharpoonup> string) \<Rightarrow> bool" where
  \<comment> \<open>no string of the dictionary has one of the letters A to Z\<close>
  "lowered d = (\<forall>k v. d k = Some v \<longrightarrow> no_upper v)"

definition blank_instruments :: "table \<Rightarrow> bool" where
  \<comment> \<open>every key and every record of the table has the empty instrument\<close>
  "blank_instruments tbl = (\<forall>(k, v) \<in> set tbl. snd k = [] \<and> instrument v = [])"

definition blank_snapshots :: "event list \<Rightarrow> bool" where
  \<comment> \<open>every snapshot written lists records with the empty instrument only\<close>
  "blank_snapshots out =
     (\<forall>js. Write_snapshot js \<in> set out \<longrightarrow> (\<forall>s \<in> set (strategies js). instrument s = []))"



section \<open>Properties\<close>

subsection \<open>The instrument validator\<close>

lemma upper_atom: "atom_ok False upper_AZ c \<longleftrightarrow> between 65 90 (code c)"
  by (simp add: upper_AZ_def in_range_def code_def)

lemma upper_not_space: "between 65 90 (code c) \<Longrightarrow> \<not> is_space c"
  by (auto simp: is_space_def between_def Let_def)

lemma upper_not_newline: "between 65 90 (code c) \<Longrightarrow> c \<noteq> CHR 0x0A"
  by (auto simp: between_def code_def)

lemma greedy_to_the_end:
  "all_upper cs \<Longrightarrow> length cs \<le> h
   \<Longrightarrow> run False [Match (Rep upper_AZ 0 (Some h) True), Match (Seq Eol Eps)] p i cs g = Some g"
proof (induction cs arbitrary: h p i)
  case Nil
  then show ?case by (simp add: at_end_def)
next
  case (Cons c cs)
  then have "all_upper cs" "length cs \<le> h - 1" "h \<noteq> 0" "atom_ok False upper_AZ c"
    by (auto simp: all_upper_def upper_atom)
  with Cons.IH [of "h - 1" "Some c" "Suc i"] show ?case by simp
qed

lemma greedy_too_long:
  assumes rest: "\<And>p i cs g. cs \<noteq> [] \<Longrightarrow> all_upper cs \<Longrightarrow> run False fs p i cs g = None"
  shows "all_upper cs \<Longrightarrow> h < length cs
   \<Longrightarrow> run False (Match (Rep upper_AZ 0 (Some h) True) # fs) p i cs g = None"
proof (induction cs arbitrary: h p i)
  case Nil
  then show ?case by simp
next
  case (Cons c cs)
  have fallback: "run False fs p i (c # cs) g = None"
    using rest Cons.prems(1) by simp
  show ?case
  proof (cases h)
    case 0
    with fallback show ?thesis by simp
  next
    case (Suc k)
    with Cons.prems have "all_upper cs" "k < length cs"
      by (auto simp: all_upper_def)
    from Cons.IH [OF this] have "run False (Match (Rep upper_AZ 0 (Some k) True) # fs) (Some c) (Suc i) cs g = None" .
    with Suc fallback show ?thesis by simp
  qed
qed

lemma symbol_accepts:
  assumes "all_upper s" "1 \<le> length s" "length s \<le> 6"
  shows "valid_instrument s"
proof -
  from assms obtain c cs where s: "s = c # cs" by (cases s) auto
  with assms have "all_upper cs" "length cs \<le> 5" "atom_ok False upper_AZ c"
    by (auto simp: all_upper_def upper_atom)
  with greedy_to_the_end [of cs 5 "Some c" "Suc 0" "[]"] s
  have "re_match False RE_SYMBOL s \<noteq> None"
    by (simp add: re_match_def match_obj_of_def RE_SYMBOL_def seqs_def counted_def)
  then show ?thesis by (simp add: valid_instrument_def)
qed

lemma end_needs_end: "cs \<noteq> [] \<Longrightarrow> all_upper cs \<Longrightarrow> run False [Match (Seq Eol Eps)] p i cs g = None"
  by (cases cs) (auto simp: at_end_def all_upper_def upper_not_newline)

lemma space_needs_space:
  "cs \<noteq> [] \<Longrightarrow> all_upper cs
   \<Longrightarrow> run False [Match (Seq (one_or_more (In [CSpace])) r)] p i cs g = None"
  by (cases cs) (auto simp: one_or_more_def all_upper_def upper_not_space)

lemma too_long_rejected:
  assumes "all_upper s" "7 \<le> length s"
  shows "\<not> valid_instrument s"
proof -
  from assms obtain c cs where s: "s = c # cs" by (cases s) auto
  with assms have cs: "all_upper cs" "5 < length cs" and c: "atom_ok False upper_AZ c"
    by (auto simp: all_upper_def upper_atom)
  have a: "run False [Match (Rep upper_AZ 0 (Some 5) True), Match (Seq Eol Eps)] (Some c) (Suc 0) cs [] = None"
    using greedy_too_long [OF end_needs_end cs] by simp
  have b: "\<And>r. run False [Match (Rep upper_AZ 0 (Some 5) True), Match (Seq (one_or_more (In [CSpace])) r)]
      (Some c) (Suc 0) cs [] = None"
    using greedy_too_long [OF space_needs_space cs] by simp
  from a b c s show ?thesis
    by (simp add: valid_instrument_def re_match_def match_obj_of_def RE_SYMBOL_def RE_FUT_MMMYY_def
        RE_FUT_MMYY_def seqs_def counted_def)
qed

lemma first_not_upper_rejected:
  assumes "\<not> between 65 90 (code c)"
  shows "\<not> valid_instrument (c # cs)"
  using assms
  by (simp add: valid_instrument_def re_match_def match_obj_of_def RE_FUT_MMMYY_def
        RE_FUT_MMYY_def RE_SYMBOL_def seqs_def counted_def upper_atom)

lemma within_Suc: "within hi (Suc n) \<longleftrightarrow> hi \<noteq> Some 0 \<and> within (dec hi) n"
  by (cases hi) auto

lemma within_0: "within hi 0"
  by (cases hi) auto

lemma rep_greedy_iff:
  "run False (Match (Rep a lo hi True) # fs) p i cs g \<noteq> None
   \<longleftrightarrow> (\<exists>xs ys. cs = xs @ ys \<and> lo \<le> length xs \<and> within hi (length xs)
          \<and> (\<forall>c \<in> set xs. atom_ok False a c)
          \<and> run False fs (prev_after p xs) (i + length xs) ys g \<noteq> None)"
proof (induction cs arbitrary: lo hi p i)
  case Nil
  show ?case by (auto simp: within_0)
next
  case (Cons c cs)
  let ?more = "hi \<noteq> Some 0 \<and> atom_ok False a c
      \<and> run False (Match (Rep a (lo - 1) (dec hi) True) # fs) (Some c) (Suc i) cs g \<noteq> None"
  let ?stop = "lo = 0 \<and> run False fs p i (c # cs) g \<noteq> None"
  have lhs: "run False (Match (Rep a lo hi True) # fs) p i (c # cs) g \<noteq> None \<longleftrightarrow> ?more \<or> ?stop"
    by (auto split: option.splits)
  have more: "?more \<longleftrightarrow> (\<exists>xs ys. cs = xs @ ys \<and> lo \<le> Suc (length xs) \<and> within hi (Suc (length xs))
          \<and> atom_ok False a c \<and> (\<forall>x \<in> set xs. atom_ok False a x)
          \<and> run False fs (prev_after (Some c) xs) (Suc i + length xs) ys g \<noteq> None)"
  proof -
    have a: "lo - 1 \<le> n \<longleftrightarrow> lo \<le> Suc n" for n by arith
    show ?thesis
      unfolding Cons.IH [of "lo - 1" "dec hi" "Some c" "Suc i"] within_Suc a by blast
  qed
  have rhs: "(\<exists>xs ys. c # cs = xs @ ys \<and> lo \<le> length xs \<and> within hi (length xs)
          \<and> (\<forall>c \<in> set xs. atom_ok False a c)
          \<and> run False fs (prev_after p xs) (i + length xs) ys g \<noteq> None)
      \<longleftrightarrow> (\<exists>xs ys. cs = xs @ ys \<and> lo \<le> Suc (length xs) \<and> within hi (Suc (length xs))
          \<and> atom_ok False a c \<and> (\<forall>x \<in> set xs. atom_ok False a x)
          \<and> run False fs (prev_after (Some c) xs) (Suc i + length xs) ys g \<noteq> None) \<or> ?stop"
    (is "?L \<longleftrightarrow> ?R1 \<or> ?stop")
  proof
    assume ?L
    then obtain xs ys where h: "c # cs = xs @ ys" "lo \<le> length xs" "within hi (length xs)"
      "\<forall>c \<in> set xs. atom_ok False a c"
      "run False fs (prev_after p xs) (i + length xs) ys g \<noteq> None" by blast
    show "?R1 \<or> ?stop"
    proof (cases xs)
      case Nil
      with h show ?thesis by simp
    next
      case (Cons x xs')
      with h have "cs = xs' @ ys \<and> lo \<le> Suc (length xs') \<and> within hi (Suc (length xs'))
          \<and> atom_ok False a c \<and> (\<forall>x \<in> set xs'. atom_ok False a x)
          \<and> run False fs (prev_after (Some c) xs') (Suc i + length xs') ys g \<noteq> None" by simp
      then show ?thesis by blast
    qed
  next
    assume "?R1 \<or> ?stop"
    then show ?L
    proof
      assume ?R1
      then obtain xs ys where h: "cs = xs @ ys" "lo \<le> Suc (length xs)" "within hi (Suc (length xs))"
        "atom_ok False a c" "\<forall>x \<in> set xs. atom_ok False a x"
        "run False fs (prev_after (Some c) xs) (Suc i + length xs) ys g \<noteq> None" by blast
      then have "c # cs = (c # xs) @ ys \<and> lo \<le> length (c # xs) \<and> within hi (length (c # xs))
          \<and> (\<forall>x \<in> set (c # xs). atom_ok False a x)
          \<and> run False fs (prev_after p (c # xs)) (i + length (c # xs)) ys g \<noteq> None" by simp
      then show ?L by blast
    next
      assume ?stop
      then have "c # cs = [] @ (c # cs) \<and> lo \<le> length ([] :: string) \<and> within hi (length ([] :: string))
          \<and> (\<forall>x \<in> set ([] :: string). atom_ok False a x)
          \<and> run False fs (prev_after p []) (i + length ([] :: string)) (c # cs) g \<noteq> None"
        by (simp add: within_0)
      then show ?L by blast
    qed
  qed
  show ?case unfolding lhs more rhs ..
qed

lemma one_iff:
  "run False (Match (One a) # fs) p i cs g \<noteq> None
   \<longleftrightarrow> (\<exists>c ys. cs = c # ys \<and> atom_ok False a c \<and> run False fs (Some c) (Suc i) ys g \<noteq> None)"
  by (cases cs) auto

lemma lit_Nil: "lit [] = Eps"
  by (simp add: lit_def seqs_def)

lemma lit_Cons: "lit (a # w) = Seq (One (Chr a)) (lit w)"
  by (simp add: lit_def seqs_def)

lemma lit_iff:
  "run False (Match (lit w) # fs) p i cs g \<noteq> None
   \<longleftrightarrow> (\<exists>ys. cs = w @ ys \<and> run False fs (prev_after p w) (i + length w) ys g \<noteq> None)"
proof (induction w arbitrary: p i cs)
  case Nil
  show ?case by (simp add: lit_Nil)
next
  case (Cons a w)
  show ?case
  proof (cases cs)
    case Nil
    then show ?thesis by (simp add: lit_Cons)
  next
    case (Cons c rest)
    have "run False (Match (lit (a # w)) # fs) p i (c # rest) g \<noteq> None
        \<longleftrightarrow> c = a \<and> run False (Match (lit w) # fs) (Some c) (Suc i) rest g \<noteq> None"
      by (simp add: lit_Cons del: not_None_eq)
    also have "\<dots> \<longleftrightarrow> c = a \<and> (\<exists>ys. rest = w @ ys
        \<and> run False fs (prev_after (Some c) w) (Suc i + length w) ys g \<noteq> None)"
      unfolding Cons.IH ..
    also have "\<dots> \<longleftrightarrow> (\<exists>ys. c # rest = (a # w) @ ys
        \<and> run False fs (prev_after p (a # w)) (i + length (a # w)) ys g \<noteq> None)"
      by (auto simp del: not_None_eq)
    finally show ?thesis using Cons by simp
  qed
qed

lemma alt_iff:
  "run ic (Match (Alt r1 r2) # fs) p i cs g \<noteq> None
   \<longleftrightarrow> run ic (Match r1 # fs) p i cs g \<noteq> None \<or> run ic (Match r2 # fs) p i cs g \<noteq> None"
  by (auto split: option.splits)

lemma end_iff: "run False [Match Eol, Match Eps] p i cs g \<noteq> None \<longleftrightarrow> final_newline cs"
  by (simp add: at_end_def final_newline_def)

lemma symbol_part_rep:
  "symbol_part xs \<longleftrightarrow> 1 \<le> length xs \<and> within (Some 6) (length xs)
     \<and> (\<forall>c \<in> set xs. atom_ok False upper_AZ c)"
  by (simp add: symbol_part_def all_upper_def upper_atom)

lemma blanks_rep:
  "blanks xs \<longleftrightarrow> 1 \<le> length xs \<and> within None (length xs)
     \<and> (\<forall>c \<in> set xs. atom_ok False (In [CSpace]) c)"
  by (simp add: blanks_def)

lemma at_most_one_blank_rep:
  "at_most_one_blank xs \<longleftrightarrow> 0 \<le> length xs \<and> within (Some 1) (length xs)
     \<and> (\<forall>c \<in> set xs. atom_ok False (In [CSpace]) c)"
  by (simp add: at_most_one_blank_def)

lemma two_digits_rep:
  "two_digits xs \<longleftrightarrow> 2 \<le> length xs \<and> within (Some 2) (length xs)
     \<and> (\<forall>c \<in> set xs. atom_ok False (In [CDigit]) c)"
  by (auto simp: two_digits_def)

lemma symbol_rep_iff:
  "run False (Match (counted upper_AZ 1 6) # fs) p i cs g \<noteq> None
   \<longleftrightarrow> (\<exists>sy ys. cs = sy @ ys \<and> symbol_part sy
          \<and> run False fs (prev_after p sy) (i + length sy) ys g \<noteq> None)"
  unfolding counted_def rep_greedy_iff symbol_part_rep by (simp only: conj_assoc)

lemma blanks_rep_iff:
  "run False (Match (one_or_more (In [CSpace])) # fs) p i cs g \<noteq> None
   \<longleftrightarrow> (\<exists>ws ys. cs = ws @ ys \<and> blanks ws
          \<and> run False fs (prev_after p ws) (i + length ws) ys g \<noteq> None)"
  unfolding one_or_more_def rep_greedy_iff blanks_rep by (simp only: conj_assoc)

lemma opt_blank_rep_iff:
  "run False (Match (counted (In [CSpace]) 0 1) # fs) p i cs g \<noteq> None
   \<longleftrightarrow> (\<exists>ws ys. cs = ws @ ys \<and> at_most_one_blank ws
          \<and> run False fs (prev_after p ws) (i + length ws) ys g \<noteq> None)"
  unfolding counted_def rep_greedy_iff at_most_one_blank_rep by (simp only: conj_assoc)

lemma digits_rep_iff:
  "run False (Match (counted (In [CDigit]) 2 2) # fs) p i cs g \<noteq> None
   \<longleftrightarrow> (\<exists>ds ys. cs = ds @ ys \<and> two_digits ds
          \<and> run False fs (prev_after p ds) (i + length ds) ys g \<noteq> None)"
  unfolding counted_def rep_greedy_iff two_digits_rep by (simp only: conj_assoc)

lemma dash_iff:
  "run False (Match (One (Chr CHR ''-'')) # fs) p i cs g \<noteq> None
   \<longleftrightarrow> (\<exists>ys. cs = ''-'' @ ys \<and> run False fs (Some CHR ''-'') (Suc i) ys g \<noteq> None)"
  unfolding one_iff by (auto simp del: not_None_eq)

lemma months_iff:
  "run False (Match months # fs) p i cs g \<noteq> None
   \<longleftrightarrow> (\<exists>mon ys. cs = mon @ ys \<and> mon \<in> set MONTHS
          \<and> run False fs (prev_after p mon) (i + length mon) ys g \<noteq> None)"
proof -
  have "run False (Match months # fs) p i cs g \<noteq> None
      \<longleftrightarrow> (\<exists>mon \<in> set MONTHS. \<exists>ys. cs = mon @ ys
            \<and> run False fs (prev_after p mon) (i + length mon) ys g \<noteq> None)"
    unfolding months_def MONTHS_def
    by (simp only: list.map foldr.simps o_apply id_apply alt_iff lit_iff list.set bex_simps
        ball_simps insert_iff empty_iff bex_Un Un_iff disj_assoc bex_triv_one_point1 bex_triv_one_point2
        simp_thms ex_disj_distrib conj_disj_distribR)
  then show ?thesis by blast
qed

lemma re_match_iff: "re_match False r s \<noteq> None \<longleftrightarrow> run False [Match r] None 0 s [] \<noteq> None"
  by (simp add: re_match_def match_obj_of_def)

lemma symbol_iff: "re_match False RE_SYMBOL s \<noteq> None \<longleftrightarrow> shape_symbol s"
  unfolding re_match_iff RE_SYMBOL_def seqs_def shape_symbol_def
  by (simp only: foldr.simps o_apply id_apply simp_thms run.simps(5) run.simps(10) if_True symbol_rep_iff end_iff)

lemma mmyy_iff: "re_match False RE_FUT_MMYY s \<noteq> None \<longleftrightarrow> shape_mmyy s"
proof -
  have "re_match False RE_FUT_MMYY s \<noteq> None
      \<longleftrightarrow> (\<exists>sy y1. s = sy @ y1 \<and> symbol_part sy \<and> (\<exists>ws y2. y1 = ws @ y2 \<and> blanks ws
            \<and> (\<exists>ds1 y3. y2 = ds1 @ y3 \<and> two_digits ds1 \<and> (\<exists>y4. y3 = ''-'' @ y4
            \<and> (\<exists>ds2 nl. y4 = ds2 @ nl \<and> two_digits ds2 \<and> final_newline nl)))))"
    unfolding re_match_iff RE_FUT_MMYY_def seqs_def
    by (simp only: foldr.simps o_apply id_apply simp_thms run.simps(5) run.simps(10) if_True symbol_rep_iff
        blanks_rep_iff digits_rep_iff dash_iff end_iff)
  also have "\<dots> \<longleftrightarrow> shape_mmyy s"
  proof
    assume "\<exists>sy y1. s = sy @ y1 \<and> symbol_part sy \<and> (\<exists>ws y2. y1 = ws @ y2 \<and> blanks ws
            \<and> (\<exists>ds1 y3. y2 = ds1 @ y3 \<and> two_digits ds1 \<and> (\<exists>y4. y3 = ''-'' @ y4
            \<and> (\<exists>ds2 nl. y4 = ds2 @ nl \<and> two_digits ds2 \<and> final_newline nl))))"
    then obtain sy ws ds1 ds2 nl where "s = sy @ ws @ ds1 @ ''-'' @ ds2 @ nl" "symbol_part sy"
      "blanks ws" "two_digits ds1" "two_digits ds2" "final_newline nl"
      by auto
    then show "shape_mmyy s"
      unfolding shape_mmyy_def by blast
  next
    assume "shape_mmyy s"
    then obtain sy ws ds1 ds2 nl where h: "s = sy @ ws @ ds1 @ ''-'' @ ds2 @ nl" "symbol_part sy"
      "blanks ws" "two_digits ds1" "two_digits ds2" "final_newline nl"
      unfolding shape_mmyy_def by blast
    show "\<exists>sy y1. s = sy @ y1 \<and> symbol_part sy \<and> (\<exists>ws y2. y1 = ws @ y2 \<and> blanks ws
            \<and> (\<exists>ds1 y3. y2 = ds1 @ y3 \<and> two_digits ds1 \<and> (\<exists>y4. y3 = ''-'' @ y4
            \<and> (\<exists>ds2 nl. y4 = ds2 @ nl \<and> two_digits ds2 \<and> final_newline nl))))"
      by (intro exI conjI; (rule h | rule refl))
  qed
  finally show ?thesis .
qed

lemma mmmyy_iff: "re_match False RE_FUT_MMMYY s \<noteq> None \<longleftrightarrow> shape_mmmyy s"
proof -
  have "re_match False RE_FUT_MMMYY s \<noteq> None
      \<longleftrightarrow> (\<exists>sy y1. s = sy @ y1 \<and> symbol_part sy \<and> (\<exists>ws y2. y1 = ws @ y2 \<and> blanks ws
            \<and> (\<exists>mon y3. y2 = mon @ y3 \<and> mon \<in> set MONTHS
            \<and> (\<exists>ows y4. y3 = ows @ y4 \<and> at_most_one_blank ows
            \<and> (\<exists>ds nl. y4 = ds @ nl \<and> two_digits ds \<and> final_newline nl)))))"
    unfolding re_match_iff RE_FUT_MMMYY_def seqs_def
    by (simp only: foldr.simps o_apply id_apply simp_thms run.simps(5) run.simps(10) if_True symbol_rep_iff
        blanks_rep_iff months_iff opt_blank_rep_iff digits_rep_iff end_iff)
  also have "\<dots> \<longleftrightarrow> shape_mmmyy s"
  proof
    assume "\<exists>sy y1. s = sy @ y1 \<and> symbol_part sy \<and> (\<exists>ws y2. y1 = ws @ y2 \<and> blanks ws
            \<and> (\<exists>mon y3. y2 = mon @ y3 \<and> mon \<in> set MONTHS
            \<and> (\<exists>ows y4. y3 = ows @ y4 \<and> at_most_one_blank ows
            \<and> (\<exists>ds nl. y4 = ds @ nl \<and> two_digits ds \<and> final_newline nl))))"
    then obtain sy ws mon ows ds nl where "s = sy @ ws @ mon @ ows @ ds @ nl" "symbol_part sy"
      "blanks ws" "mon \<in> set MONTHS" "at_most_one_blank ows" "two_digits ds" "final_newline nl"
      by auto
    then show "shape_mmmyy s"
      unfolding shape_mmmyy_def by blast
  next
    assume "shape_mmmyy s"
    then obtain sy ws mon ows ds nl where h: "s = sy @ ws @ mon @ ows @ ds @ nl" "symbol_part sy"
      "blanks ws" "mon \<in> set MONTHS" "at_most_one_blank ows" "two_digits ds" "final_newline nl"
      unfolding shape_mmmyy_def by blast
    show "\<exists>sy y1. s = sy @ y1 \<and> symbol_part sy \<and> (\<exists>ws y2. y1 = ws @ y2 \<and> blanks ws
            \<and> (\<exists>mon y3. y2 = mon @ y3 \<and> mon \<in> set MONTHS
            \<and> (\<exists>ows y4. y3 = ows @ y4 \<and> at_most_one_blank ows
            \<and> (\<exists>ds nl. y4 = ds @ nl \<and> two_digits ds \<and> final_newline nl))))"
      by (intro exI conjI; (rule h | rule refl))
  qed
  finally show ?thesis .
qed

lemma valid_instrument_iff: "valid_instrument s \<longleftrightarrow> accepted_shape s"
  by (simp only: valid_instrument_def accepted_shape_def mmmyy_iff mmyy_iff symbol_iff)

text \<open>
  C8, as the code has it. The validator is a function of its argument alone, defined on
  every string. It returns its argument exactly when the argument has one of three shapes,
  each optionally followed by one final newline: one to six letters A to Z, one or more
  white-space characters, a month abbreviation JAN to DEC, at most one white-space
  character, two decimal digits; one to six letters A to Z, one or more white-space
  characters, two digits, a dash, two digits; or one to six letters A to Z alone.
  Otherwise it returns the empty string. Applying it twice is applying it once. It
  returns "MNQ DEC25", "ES 03-26" and "AAPL" unchanged and maps "2025", the empty string
  and "ABCDEFG" to the empty string; it returns every string of one to six letters A to Z
  unchanged, and maps to the empty string every string of seven or more such letters and
  every string that does not begin with one.
\<close>

theorem validate_instrument_shapes:
  "(valid_instrument s \<longleftrightarrow> accepted_shape s)
   \<and> validate_instrument s = (if accepted_shape s then s else [])
   \<and> validate_instrument (validate_instrument s) = validate_instrument s
   \<and> (all_upper s \<and> 1 \<le> length s \<and> length s \<le> 6 \<longrightarrow> validate_instrument s = s)
   \<and> (all_upper s \<and> 7 \<le> length s \<longrightarrow> validate_instrument s = [])
   \<and> (\<not> between 65 90 (code c) \<longrightarrow> validate_instrument (c # cs) = [])
   \<and> validate_instrument ''MNQ DEC25'' = ''MNQ DEC25''
   \<and> validate_instrument ''ES 03-26'' = ''ES 03-26''
   \<and> validate_instrument ''AAPL'' = ''AAPL''
   \<and> validate_instrument ''2025'' = []
   \<and> validate_instrument [] = []
   \<and> validate_instrument ''ABCDEFG'' = []"
proof -
  have shapes: "valid_instrument s \<longleftrightarrow> accepted_shape s"
    by (rule valid_instrument_iff)
  have empty: "\<not> valid_instrument []"
    by code_simp
  have general: "validate_instrument s = (if accepted_shape s then s else [])"
    using empty shapes by (cases "s = []") (simp_all add: validate_instrument_def)
  have twice: "validate_instrument (validate_instrument s) = validate_instrument s"
    using empty by (simp add: validate_instrument_def)
  have symbol: "all_upper s \<and> 1 \<le> length s \<and> length s \<le> 6 \<longrightarrow> validate_instrument s = s"
    using symbol_accepts [of s] by (simp add: validate_instrument_def)
  have long: "all_upper s \<and> 7 \<le> length s \<longrightarrow> validate_instrument s = []"
    using too_long_rejected [of s] by (auto simp: validate_instrument_def)
  have start: "\<not> between 65 90 (code c) \<longrightarrow> validate_instrument (c # cs) = []"
    using first_not_upper_rejected [of c cs] by (simp add: validate_instrument_def)
  have accepted: "validate_instrument ''MNQ DEC25'' = ''MNQ DEC25''
      \<and> validate_instrument ''ES 03-26'' = ''ES 03-26''
      \<and> validate_instrument ''AAPL'' = ''AAPL''"
    by code_simp
  have rejected: "validate_instrument ''2025'' = [] \<and> validate_instrument [] = []
      \<and> validate_instrument ''ABCDEFG'' = []"
    by code_simp
  show ?thesis
    using shapes general twice symbol long start accepted rejected by blast
qed

theorem validate_instrument_shapes_witness:
  "accepted_shape ''MNQ MAR26'' \<and> validate_instrument ''MNQ MAR26'' = ''MNQ MAR26''
   \<and> accepted_shape ''NQ 06-25'' \<and> validate_instrument ''NQ 06-25'' = ''NQ 06-25''
   \<and> \<not> accepted_shape ''MNQ MAR 2026'' \<and> validate_instrument ''MNQ MAR 2026'' = []
   \<and> all_upper ''NINJATRADER'' \<and> validate_instrument ''NINJATRADER'' = []
   \<and> validate_instrument ''mgc dec25'' = []"
proof -
  have "''MNQ MAR26'' = ''MNQ'' @ '' '' @ ''MAR'' @ [] @ ''26'' @ [] \<and> symbol_part ''MNQ''
      \<and> blanks '' '' \<and> ''MAR'' \<in> set MONTHS \<and> at_most_one_blank [] \<and> two_digits ''26''
      \<and> final_newline []"
    by code_simp
  then have "shape_mmmyy ''MNQ MAR26''"
    unfolding shape_mmmyy_def by blast
  then have m: "accepted_shape ''MNQ MAR26''"
    by (simp add: accepted_shape_def)
  have "''NQ 06-25'' = ''NQ'' @ '' '' @ ''06'' @ ''-'' @ ''25'' @ [] \<and> symbol_part ''NQ''
      \<and> blanks '' '' \<and> two_digits ''06'' \<and> two_digits ''25'' \<and> final_newline []"
    by code_simp
  then have "shape_mmyy ''NQ 06-25''"
    unfolding shape_mmyy_def by blast
  then have n: "accepted_shape ''NQ 06-25''"
    by (simp add: accepted_shape_def)
  have v: "\<not> valid_instrument ''MNQ MAR 2026''"
    by code_simp
  have u: "all_upper ''NINJATRADER'' \<and> \<not> between 65 90 (code CHR ''m'')"
    by code_simp
  have l: "7 \<le> length ''NINJATRADER''"
    by simp
  from m validate_instrument_shapes [of "''MNQ MAR26''" c cs]
  have a: "validate_instrument ''MNQ MAR26'' = ''MNQ MAR26''" by presburger
  from n validate_instrument_shapes [of "''NQ 06-25''" c cs]
  have b: "validate_instrument ''NQ 06-25'' = ''NQ 06-25''" by presburger
  from v validate_instrument_shapes [of "''MNQ MAR 2026''" c cs]
  have d: "\<not> accepted_shape ''MNQ MAR 2026'' \<and> validate_instrument ''MNQ MAR 2026'' = []"
    by presburger
  from u l validate_instrument_shapes [of "''NINJATRADER''" c cs]
  have e: "validate_instrument ''NINJATRADER'' = []" by blast
  from u validate_instrument_shapes [of s "CHR ''m''" "''gc dec25''"]
  have f: "validate_instrument ''mgc dec25'' = []" by blast
  from m n a b d e f u show ?thesis by blast
qed

text \<open>
  The validator returns "MNQ  DEC25", with two spaces, and "AAPL" followed by a newline
  unchanged, and clears "aapl": the first two are not of the shapes as the specification
  words them, the third is. The worded shapes hold of the three strings the
  specification accepts and of none of the three it rejects.
\<close>

theorem validator_differs_from_worded_shapes:
  "validate_instrument ''MNQ  DEC25'' = ''MNQ  DEC25'' \<and> \<not> worded_shape ''MNQ  DEC25''
   \<and> validate_instrument (''AAPL'' @ [CHR 0x0A]) = ''AAPL'' @ [CHR 0x0A]
   \<and> \<not> worded_shape (''AAPL'' @ [CHR 0x0A])
   \<and> worded_shape ''aapl'' \<and> validate_instrument ''aapl'' = []
   \<and> worded_shape ''MNQ DEC25'' \<and> worded_shape ''ES 03-26'' \<and> worded_shape ''AAPL''
   \<and> \<not> worded_shape ''2025'' \<and> \<not> worded_shape [] \<and> \<not> worded_shape ''ABCDEFG''"
  by code_simp

subsection \<open>The snapshot\<close>

lemma sort_key_of_le: "sort_key_of a \<le> sort_key_of b \<longleftrightarrow> by_name_then_instrument a b"
  by (auto simp: sort_key_of_def by_name_then_instrument_def less_eq_prod_def)

text \<open>
  C9. The strategies of the snapshot are the records of the table, each once, in the order
  of (lower-cased name, lower-cased instrument); records with equal keys keep the order
  they have in the table. A table with the entries ("Beta", "MNQ DEC25") and
  ("alpha", "AAPL") is written with alpha before Beta, and under the names "alpha" and
  "Alpha" the instrument decides.
\<close>

theorem statuses_to_json_sorted:
  "sorted_wrt by_name_then_instrument (strategies (statuses_to_json t tbl))
   \<and> mset (strategies (statuses_to_json t tbl)) = mset (map snd tbl)
   \<and> filter (\<lambda>s. sort_key_of s = k) (strategies (statuses_to_json t tbl))
       = filter (\<lambda>s. sort_key_of s = k) (map snd tbl)
   \<and> strategies (statuses_to_json 0
        [((''Beta'', ''MNQ DEC25''), entry ''Beta'' ''MNQ DEC25''),
         ((''alpha'', ''AAPL''), entry ''alpha'' ''AAPL'')])
       = [entry ''alpha'' ''AAPL'', entry ''Beta'' ''MNQ DEC25'']
   \<and> strategies (statuses_to_json 0
        [((''alpha'', ''MNQ DEC25''), entry ''alpha'' ''MNQ DEC25''),
         ((''Beta'', ''ES 03-26''), entry ''Beta'' ''ES 03-26''),
         ((''Alpha'', ''AAPL''), entry ''Alpha'' ''AAPL'')])
       = [entry ''Alpha'' ''AAPL'', entry ''alpha'' ''MNQ DEC25'', entry ''Beta'' ''ES 03-26'']"
proof -
  have "sorted (map sort_key_of (sort_key sort_key_of (map snd tbl)))"
    by (rule sorted_sort_key)
  then have ordered: "sorted_wrt by_name_then_instrument (strategies (statuses_to_json t tbl))"
    by (simp add: statuses_to_json_def sorted_map sort_key_of_le)
  have same: "mset (strategies (statuses_to_json t tbl)) = mset (map snd tbl)"
    by (simp add: statuses_to_json_def)
  have stable: "filter (\<lambda>s. sort_key_of s = k) (strategies (statuses_to_json t tbl))
      = filter (\<lambda>s. sort_key_of s = k) (map snd tbl)"
    by (simp add: statuses_to_json_def sort_key_stable)
  have two: "strategies (statuses_to_json 0
        [((''Beta'', ''MNQ DEC25''), entry ''Beta'' ''MNQ DEC25''),
         ((''alpha'', ''AAPL''), entry ''alpha'' ''AAPL'')])
       = [entry ''alpha'' ''AAPL'', entry ''Beta'' ''MNQ DEC25'']"
    by code_simp
  have three: "strategies (statuses_to_json 0
        [((''alpha'', ''MNQ DEC25''), entry ''alpha'' ''MNQ DEC25''),
         ((''Beta'', ''ES 03-26''), entry ''Beta'' ''ES 03-26''),
         ((''Alpha'', ''AAPL''), entry ''Alpha'' ''AAPL'')])
       = [entry ''Alpha'' ''AAPL'', entry ''alpha'' ''MNQ DEC25'', entry ''Beta'' ''ES 03-26'']"
    by code_simp
  show ?thesis
    using ordered same stable two three by blast
qed

subsection \<open>The two lines of the source's comments\<close>

text \<open>
  C1. On the line \<^verbatim>\<open>Strategy 'Alpha' on MGC DEC25 enabled on connection Sim101\<close>
  the matcher takes its captures from the lower-cased line: name "alpha", instrument
  "mgc dec25", connection "sim101". The validator, whose patterns take upper-case
  letters only, clears the instrument, and the record stored is name "alpha",
  instrument "", enabled, connection "sim101".
\<close>

theorem alpha_line_record:
  "parse_view ALPHA_LINE DEFAULT_PATTERNS
     = Inr (True, Some True, [Some ''alpha'', Some ''mgc dec25'', Some ''sim101'', None])
   \<and> process_line DEFAULT_CONFIG env0 ALPHA_LINE fresh
     = Inr (\<lparr>statuses = [((''alpha'', []),
               \<lparr>name = ''alpha'', instrument = [], enabled = True, connection = ''sim101'',
                account = []\<rparr>)],
             last_json_write = Some 0, last_email_time = None\<rparr>,
            [Change ''alpha'' [] True ''sim101'',
             Write_snapshot \<lparr>updated_at = 0, strategies =
               [\<lparr>name = ''alpha'', instrument = [], enabled = True, connection = ''sim101'',
                 account = []\<rparr>]\<rparr>,
             Json_updated 1,
             Publish ''alpha'' [] True ''sim101''])"
proof -
  have parsed: "parse_view ALPHA_LINE DEFAULT_PATTERNS
     = Inr (True, Some True, [Some ''alpha'', Some ''mgc dec25'', Some ''sim101'', None])"
    by code_simp
  have stored: "process_line DEFAULT_CONFIG env0 ALPHA_LINE fresh
     = Inr (\<lparr>statuses = [((''alpha'', []),
               \<lparr>name = ''alpha'', instrument = [], enabled = True, connection = ''sim101'',
                account = []\<rparr>)],
             last_json_write = Some 0, last_email_time = None\<rparr>,
            [Change ''alpha'' [] True ''sim101'',
             Write_snapshot \<lparr>updated_at = 0, strategies =
               [\<lparr>name = ''alpha'', instrument = [], enabled = True, connection = ''sim101'',
                 account = []\<rparr>]\<rparr>,
             Json_updated 1,
             Publish ''alpha'' [] True ''sim101''])"
    by code_simp
  show ?thesis
    using parsed stored by (rule conjI)
qed

text \<open>
  C7. On the line \<^verbatim>\<open>Enabling NinjaScript strategy 'Foo/12345'\<close> the name captured is
  "foo/12345", from the lower-cased line; it is cut at the first "/" and the record is
  stored under the name "foo".
\<close>

theorem foo_line_record:
  "parse_view FOO_LINE DEFAULT_PATTERNS = Inr (True, Some True, [Some ''foo'', None, None, None])
   \<and> map fst (statuses (fst (loop_step DEFAULT_CONFIG env0 FOO_LINE fresh))) = [(''foo'', [])]"
proof -
  have parsed: "parse_view FOO_LINE DEFAULT_PATTERNS
      = Inr (True, Some True, [Some ''foo'', None, None, None])"
    by code_simp
  have stored: "map fst (statuses (fst (loop_step DEFAULT_CONFIG env0 FOO_LINE fresh)))
      = [(''foo'', [])]"
    by code_simp
  show ?thesis
    using parsed stored by (rule conjI)
qed


subsection \<open>The pattern matcher\<close>

lemma capture_fields_total: "\<exists>gd. capture_fields m ks = Inr gd"
  by (induction ks) (auto simp: group_def)


lemma normalize_name_no_slash: "normalize_name gd ''name'' = Some n \<Longrightarrow> CHR ''/'' \<notin> set n"
proof (cases "gd ''name''")
  case None
  then show "normalize_name gd ''name'' = Some n \<Longrightarrow> CHR ''/'' \<notin> set n"
    by (simp add: normalize_name_def)
next
  case (Some n0)
  assume "normalize_name gd ''name'' = Some n"
  with Some have "n = (if CHR ''/'' \<in> set n0 then before_slash n0 else n0)"
    by (auto simp: normalize_name_def split: if_splits)
  then show "CHR ''/'' \<notin> set n"
    using set_takeWhileD [of "CHR ''/''" "\<lambda>c. c \<noteq> CHR ''/''" n0]
    by (auto simp: before_slash_def)
qed

lemma status_of_match_total:
  "\<exists>d. status_of_match en m = Inr \<lparr>d_enabled = Some en, d_strs = d\<rparr>"
  using capture_fields_total [of m "[''name'', ''instrument'', ''connection'']"]
  by (auto simp: status_of_match_def)

lemma try_patterns_first:
  "\<forall>q \<in> set ps. search q low = Inr None \<Longrightarrow> search p low = Inr (Some m)
   \<Longrightarrow> try_patterns en (ps @ p # qs) low
       = (case status_of_match en m of Inl e \<Rightarrow> Inl e | Inr st \<Rightarrow> Inr (Some st))"
  by (induction ps) auto

lemma try_patterns_none_iff:
  "try_patterns en ps low = Inr None \<longleftrightarrow> (\<forall>q \<in> set ps. search q low = Inr None)"
proof (induction ps)
  case Nil
  show ?case by simp
next
  case (Cons p ps)
  then show ?case using status_of_match_total [of en]
    by (auto split: sum.splits option.splits)
qed

lemma try_patterns_source:
  "try_patterns en ps low = Inr (Some st)
   \<Longrightarrow> \<exists>ps1 p qs m. ps = ps1 @ p # qs \<and> (\<forall>q \<in> set ps1. search q low = Inr None)
         \<and> search p low = Inr (Some m) \<and> status_of_match en m = Inr st"
proof (induction ps)
  case Nil
  then show ?case by simp
next
  case (Cons a ps)
  show ?case
  proof (cases "search a low")
    case (Inl e)
    with Cons.prems show ?thesis by simp
  next
    case (Inr r)
    show ?thesis
    proof (cases r)
      case None
      with Inr Cons.prems have "try_patterns en ps low = Inr (Some st)" by simp
      from Cons.IH [OF this] obtain ps1 p qs m where
        "ps = ps1 @ p # qs" "\<forall>q \<in> set ps1. search q low = Inr None"
        "search p low = Inr (Some m)" "status_of_match en m = Inr st" by blast
      with Inr None have "a # ps = (a # ps1) @ p # qs \<and> (\<forall>q \<in> set (a # ps1). search q low = Inr None)
          \<and> search p low = Inr (Some m) \<and> status_of_match en m = Inr st" by simp
      then show ?thesis by blast
    next
      case (Some m)
      with Inr Cons.prems have "status_of_match en m = Inr st"
        by (simp split: sum.splits)
      with Inr Some have "a # ps = [] @ a # ps \<and> (\<forall>q \<in> set []. search q low = Inr None)
          \<and> search a low = Inr (Some m) \<and> status_of_match en m = Inr st" by simp
      then show ?thesis by blast
    qed
  qed
qed

lemma try_patterns_some:
  "\<forall>q \<in> set ps. q \<noteq> Malformed \<Longrightarrow> \<exists>p \<in> set ps. \<exists>m. search p low = Inr (Some m)
   \<Longrightarrow> \<exists>d. try_patterns en ps low = Inr (Some \<lparr>d_enabled = Some en, d_strs = d\<rparr>)"
proof (induction ps)
  case Nil
  then show ?case by simp
next
  case (Cons p ps)
  from Cons.prems(1) obtain r where p: "p = Pat r" by (cases p) auto
  show ?case
  proof (cases "re_search True r low")
    case None
    then have "search p low = Inr None" by (simp add: p search_def)
    with Cons show ?thesis by auto
  next
    case (Some m)
    then have "search p low = Inr (Some m)" by (simp add: p search_def)
    then show ?thesis using status_of_match_total [of en m] by auto
  qed
qed

lemma matches_iff: "matches p line \<longleftrightarrow> (\<exists>m. search p (lower line) = Inr (Some m))"
  by (auto simp: matches_def split: sum.splits option.splits)

lemma not_matches_compiled:
  "p \<noteq> Malformed \<Longrightarrow> \<not> matches p line \<Longrightarrow> search p (lower line) = Inr None"
  by (cases p) (auto simp: matches_def search_def split: option.splits)

lemma parse_enabled_first:
  "\<forall>q \<in> set ps. search q (lower line) = Inr None \<Longrightarrow> search p (lower line) = Inr (Some m)
   \<Longrightarrow> pat_enabled pats = ps @ p # qs
   \<Longrightarrow> \<exists>st. status_of_match True m = Inr st \<and> parse_with_patterns line pats = Inr (True, st)"
  using status_of_match_total [of True m] try_patterns_first [of ps "lower line" p m True qs]
  by (auto simp: parse_with_patterns_def)

lemma parse_disabled_first:
  "\<forall>q \<in> set (pat_enabled pats). search q (lower line) = Inr None
   \<Longrightarrow> \<forall>q \<in> set ps. search q (lower line) = Inr None \<Longrightarrow> search p (lower line) = Inr (Some m)
   \<Longrightarrow> pat_disabled pats = ps @ p # qs
   \<Longrightarrow> \<exists>st. status_of_match False m = Inr st \<and> parse_with_patterns line pats = Inr (True, st)"
  using status_of_match_total [of False m] try_patterns_first [of ps "lower line" p m False qs]
    try_patterns_none_iff [of True "pat_enabled pats" "lower line"]
  by (auto simp: parse_with_patterns_def)

lemma parse_no_match_iff:
  "(\<exists>st. parse_with_patterns line pats = Inr (False, st))
   \<longleftrightarrow> (\<forall>q \<in> set (pat_enabled pats @ pat_disabled pats). search q (lower line) = Inr None)"
proof
  assume "\<exists>st. parse_with_patterns line pats = Inr (False, st)"
  then have "try_patterns True (pat_enabled pats) (lower line) = Inr None
      \<and> try_patterns False (pat_disabled pats) (lower line) = Inr None"
    by (auto simp: parse_with_patterns_def Let_def split: sum.splits option.splits)
  then show "\<forall>q \<in> set (pat_enabled pats @ pat_disabled pats). search q (lower line) = Inr None"
    by (auto simp: try_patterns_none_iff)
next
  assume "\<forall>q \<in> set (pat_enabled pats @ pat_disabled pats). search q (lower line) = Inr None"
  then have "try_patterns True (pat_enabled pats) (lower line) = Inr None
      \<and> try_patterns False (pat_disabled pats) (lower line) = Inr None"
    by (auto simp: try_patterns_none_iff)
  then show "\<exists>st. parse_with_patterns line pats = Inr (False, st)"
    by (simp add: parse_with_patterns_def)
qed

lemma search_Pat: "search (Pat r) low = Inr (re_search True r low)"
  by (simp add: search_def)

lemma matches_Pat: "matches (Pat r) line \<longleftrightarrow> re_search True r (lower line) \<noteq> None"
  by (auto simp: matches_def search_def split: option.splits)

lemma strict_enabled:
  assumes "matches (Pat enabled_1) line \<or> matches (Pat enabled_2) line \<or> matches (Pat enabled_3) line"
  shows "\<exists>r m st. r \<in> {enabled_1, enabled_2, enabled_3} \<and> re_search True r (lower line) = Some m
     \<and> status_of_match True m = Inr st \<and> parse_with_patterns line DEFAULT_PATTERNS = Inr (True, st)"
proof -
  let ?low = "lower line"
  have en: "pat_enabled DEFAULT_PATTERNS = [Pat enabled_1, Pat enabled_2, Pat enabled_3, Pat enabled_4]"
    by (simp add: DEFAULT_PATTERNS_def)
  consider (a) "re_search True enabled_1 ?low \<noteq> None"
    | (b) "re_search True enabled_1 ?low = None" "re_search True enabled_2 ?low \<noteq> None"
    | (c) "re_search True enabled_1 ?low = None" "re_search True enabled_2 ?low = None"
          "re_search True enabled_3 ?low \<noteq> None"
    using assms by (auto simp: matches_Pat)
  then show ?thesis
  proof cases
    case a
    then obtain m where m: "search (Pat enabled_1) ?low = Inr (Some m)" by (auto simp: search_Pat)
    from parse_enabled_first [of "[]" line "Pat enabled_1" m DEFAULT_PATTERNS] m en
    show ?thesis by (auto simp: search_Pat)
  next
    case b
    then obtain m where m: "search (Pat enabled_2) ?low = Inr (Some m)" by (auto simp: search_Pat)
    from parse_enabled_first [of "[Pat enabled_1]" line "Pat enabled_2" m DEFAULT_PATTERNS] m en b
    show ?thesis by (auto simp: search_Pat)
  next
    case c
    then obtain m where m: "search (Pat enabled_3) ?low = Inr (Some m)" by (auto simp: search_Pat)
    from parse_enabled_first [of "[Pat enabled_1, Pat enabled_2]" line "Pat enabled_3" m DEFAULT_PATTERNS] m en c
    show ?thesis by (auto simp: search_Pat)
  qed
qed

lemma strict_disabled:
  assumes none: "\<forall>q \<in> set (pat_enabled DEFAULT_PATTERNS). \<not> matches q line"
    and "matches (Pat disabled_1) line \<or> matches (Pat disabled_2) line
      \<or> matches (Pat disabled_3) line \<or> matches (Pat disabled_4) line"
  shows "\<exists>r m st. r \<in> {disabled_1, disabled_2, disabled_3, disabled_4}
     \<and> re_search True r (lower line) = Some m
     \<and> status_of_match False m = Inr st \<and> parse_with_patterns line DEFAULT_PATTERNS = Inr (True, st)"
proof -
  let ?low = "lower line"
  have dis: "pat_disabled DEFAULT_PATTERNS
      = [Pat disabled_1, Pat disabled_2, Pat disabled_3, Pat disabled_4, Pat disabled_5]"
    by (simp add: DEFAULT_PATTERNS_def)
  have en: "\<forall>q \<in> set (pat_enabled DEFAULT_PATTERNS). search q ?low = Inr None"
    using none by (auto simp: DEFAULT_PATTERNS_def matches_Pat search_Pat)
  consider (a) "re_search True disabled_1 ?low \<noteq> None"
    | (b) "re_search True disabled_1 ?low = None" "re_search True disabled_2 ?low \<noteq> None"
    | (c) "re_search True disabled_1 ?low = None" "re_search True disabled_2 ?low = None"
          "re_search True disabled_3 ?low \<noteq> None"
    | (d) "re_search True disabled_1 ?low = None" "re_search True disabled_2 ?low = None"
          "re_search True disabled_3 ?low = None" "re_search True disabled_4 ?low \<noteq> None"
    using assms(2) by (auto simp: matches_Pat)
  then show ?thesis
  proof cases
    case a
    then obtain m where m: "search (Pat disabled_1) ?low = Inr (Some m)" by (auto simp: search_Pat)
    from parse_disabled_first [OF en, of "[]" "Pat disabled_1" m] m dis
    show ?thesis by (auto simp: search_Pat)
  next
    case b
    then obtain m where m: "search (Pat disabled_2) ?low = Inr (Some m)" by (auto simp: search_Pat)
    from parse_disabled_first [OF en, of "[Pat disabled_1]" "Pat disabled_2" m] m dis b
    show ?thesis by (auto simp: search_Pat)
  next
    case c
    then obtain m where m: "search (Pat disabled_3) ?low = Inr (Some m)" by (auto simp: search_Pat)
    from parse_disabled_first [OF en, of "[Pat disabled_1, Pat disabled_2]" "Pat disabled_3" m] m dis c
    show ?thesis by (auto simp: search_Pat)
  next
    case d
    then obtain m where m: "search (Pat disabled_4) ?low = Inr (Some m)" by (auto simp: search_Pat)
    from parse_disabled_first [OF en, of "[Pat disabled_1, Pat disabled_2, Pat disabled_3]" "Pat disabled_4" m] m dis d
    show ?thesis by (auto simp: search_Pat)
  qed
qed


lemma enable_fallback:
  assumes "\<not> matches (Pat enabled_1) line" "\<not> matches (Pat enabled_2) line"
    "\<not> matches (Pat enabled_3) line" "matches (Pat enabled_4) line"
  shows "\<exists>m st. re_search True enabled_4 (lower line) = Some m \<and> status_of_match True m = Inr st
     \<and> parse_with_patterns line DEFAULT_PATTERNS = Inr (True, st)"
proof -
  let ?low = "lower line"
  have en: "pat_enabled DEFAULT_PATTERNS = [Pat enabled_1, Pat enabled_2, Pat enabled_3] @ Pat enabled_4 # []"
    by (simp add: DEFAULT_PATTERNS_def)
  from assms have none: "\<forall>q \<in> set [Pat enabled_1, Pat enabled_2, Pat enabled_3]. search q ?low = Inr None"
    by (simp add: matches_Pat search_Pat)
  from assms(4) obtain m where m: "re_search True enabled_4 ?low = Some m"
    by (auto simp: matches_Pat)
  then have "search (Pat enabled_4) ?low = Inr (Some m)"
    by (simp add: search_Pat)
  from parse_enabled_first [OF none this en] m show ?thesis by blast
qed

lemma disable_fallback:
  assumes "\<forall>q \<in> set (pat_enabled DEFAULT_PATTERNS). \<not> matches q line"
    "\<not> matches (Pat disabled_1) line" "\<not> matches (Pat disabled_2) line"
    "\<not> matches (Pat disabled_3) line" "\<not> matches (Pat disabled_4) line"
    "matches (Pat disabled_5) line"
  shows "\<exists>m st. re_search True disabled_5 (lower line) = Some m \<and> status_of_match False m = Inr st
     \<and> parse_with_patterns line DEFAULT_PATTERNS = Inr (True, st)"
proof -
  let ?low = "lower line"
  have dis: "pat_disabled DEFAULT_PATTERNS
      = [Pat disabled_1, Pat disabled_2, Pat disabled_3, Pat disabled_4] @ Pat disabled_5 # []"
    by (simp add: DEFAULT_PATTERNS_def)
  have en: "\<forall>q \<in> set (pat_enabled DEFAULT_PATTERNS). search q ?low = Inr None"
    using assms(1) by (auto simp: DEFAULT_PATTERNS_def matches_Pat search_Pat)
  from assms have none: "\<forall>q \<in> set [Pat disabled_1, Pat disabled_2, Pat disabled_3, Pat disabled_4].
      search q ?low = Inr None"
    by (simp add: matches_Pat search_Pat)
  from assms(6) obtain m where m: "re_search True disabled_5 ?low = Some m"
    by (auto simp: matches_Pat)
  then have "search (Pat disabled_5) ?low = Inr (Some m)"
    by (simp add: search_Pat)
  from parse_disabled_first [OF en none this dis] m show ?thesis by blast
qed

text \<open>
  C5, as the code has it. When every enable-pattern compiles and the line matches one of
  them, the record of \<^verbatim>\<open>parse_with_patterns\<close> has \<^verbatim>\<open>enabled = True\<close>. When
  every pattern compiles, the line matches a disable-pattern and it matches no
  enable-pattern, the record has \<^verbatim>\<open>enabled = False\<close>.
\<close>

theorem polarity_of_match:
  "((\<forall>p \<in> set (pat_enabled pats). p \<noteq> Malformed)
      \<and> (\<exists>p \<in> set (pat_enabled pats). matches p line)
     \<longrightarrow> (\<exists>st. parse_with_patterns line pats = Inr (True, st) \<and> d_enabled st = Some True))
   \<and> ((\<forall>p \<in> set (pat_enabled pats @ pat_disabled pats). p \<noteq> Malformed)
      \<and> (\<exists>p \<in> set (pat_disabled pats). matches p line)
      \<and> (\<forall>p \<in> set (pat_enabled pats). \<not> matches p line)
     \<longrightarrow> (\<exists>st. parse_with_patterns line pats = Inr (True, st) \<and> d_enabled st = Some False))"
proof (intro conjI impI)
  assume a: "(\<forall>p \<in> set (pat_enabled pats). p \<noteq> Malformed)
      \<and> (\<exists>p \<in> set (pat_enabled pats). matches p line)"
  then obtain d where "try_patterns True (pat_enabled pats) (lower line)
      = Inr (Some \<lparr>d_enabled = Some True, d_strs = d\<rparr>)"
    using try_patterns_some [of "pat_enabled pats" "lower line" True]
    by (auto simp: matches_iff)
  then show "\<exists>st. parse_with_patterns line pats = Inr (True, st) \<and> d_enabled st = Some True"
    by (simp add: parse_with_patterns_def)
next
  assume a: "(\<forall>p \<in> set (pat_enabled pats @ pat_disabled pats). p \<noteq> Malformed)
      \<and> (\<exists>p \<in> set (pat_disabled pats). matches p line)
      \<and> (\<forall>p \<in> set (pat_enabled pats). \<not> matches p line)"
  then have "\<forall>q \<in> set (pat_enabled pats). search q (lower line) = Inr None"
    using not_matches_compiled by auto
  then have none: "try_patterns True (pat_enabled pats) (lower line) = Inr None"
    by (simp add: try_patterns_none_iff)
  from a obtain d where "try_patterns False (pat_disabled pats) (lower line)
      = Inr (Some \<lparr>d_enabled = Some False, d_strs = d\<rparr>)"
    using try_patterns_some [of "pat_disabled pats" "lower line" False]
    by (auto simp: matches_iff)
  with none show "\<exists>st. parse_with_patterns line pats = Inr (True, st) \<and> d_enabled st = Some False"
    by (simp add: parse_with_patterns_def)
qed


theorem polarity_of_match_witness:
  "(\<exists>st. parse_with_patterns ''Strategy Foo enabled'' DEFAULT_PATTERNS = Inr (True, st)
      \<and> d_enabled st = Some True)
   \<and> (\<exists>st. parse_with_patterns ''Strategy Foo disabled'' DEFAULT_PATTERNS = Inr (True, st)
      \<and> d_enabled st = Some False)"
proof -
  have compiled: "\<forall>p \<in> set (pat_enabled DEFAULT_PATTERNS @ pat_disabled DEFAULT_PATTERNS). p \<noteq> Malformed"
    by (simp add: DEFAULT_PATTERNS_def)
  have e: "matches (Pat enabled_4) ''Strategy Foo enabled''"
    by code_simp
  have d: "matches (Pat disabled_5) ''Strategy Foo disabled''
      \<and> list_all (\<lambda>p. \<not> matches p ''Strategy Foo disabled'') (pat_enabled DEFAULT_PATTERNS)"
    by code_simp
  have e_in: "Pat enabled_4 \<in> set (pat_enabled DEFAULT_PATTERNS)"
    and d_in: "Pat disabled_5 \<in> set (pat_disabled DEFAULT_PATTERNS)"
    by (simp_all add: DEFAULT_PATTERNS_def)
  from d have none: "\<forall>p \<in> set (pat_enabled DEFAULT_PATTERNS). \<not> matches p ''Strategy Foo disabled''"
    by (simp add: list_all_iff)
  have first: "\<exists>st. parse_with_patterns ''Strategy Foo enabled'' DEFAULT_PATTERNS = Inr (True, st)
      \<and> d_enabled st = Some True"
    using polarity_of_match [of DEFAULT_PATTERNS "''Strategy Foo enabled''"] compiled e e_in
    by auto
  have second: "\<exists>st. parse_with_patterns ''Strategy Foo disabled'' DEFAULT_PATTERNS = Inr (True, st)
      \<and> d_enabled st = Some False"
    using polarity_of_match [of DEFAULT_PATTERNS "''Strategy Foo disabled''"] compiled d d_in none
    by blast
  from first second show ?thesis by (rule conjI)
qed

text \<open>
  The line \<^verbatim>\<open>Strategy Foo disabled then enabled\<close> matches the last disable-pattern,
  and its record has \<^verbatim>\<open>enabled = True\<close>: the enable-patterns are tried first.
\<close>

theorem disable_match_enabled_record:
  "Pat disabled_5 \<in> set (pat_disabled DEFAULT_PATTERNS)
   \<and> matches (Pat disabled_5) ''Strategy Foo disabled then enabled''
   \<and> parse_view ''Strategy Foo disabled then enabled'' DEFAULT_PATTERNS
       = Inr (True, Some True, [Some ''foo'', Some [], Some [], None])"
proof -
  have "Pat disabled_5 \<in> set (pat_disabled DEFAULT_PATTERNS)"
    by (simp add: DEFAULT_PATTERNS_def)
  moreover have "matches (Pat disabled_5) ''Strategy Foo disabled then enabled''
     \<and> parse_view ''Strategy Foo disabled then enabled'' DEFAULT_PATTERNS
       = Inr (True, Some True, [Some ''foo'', Some [], Some [], None])"
    by code_simp
  ultimately show ?thesis by blast
qed

text \<open>
  C6, as the code has it. \<^verbatim>\<open>parse_with_patterns\<close> searches the lower-cased line. The
  first enable-pattern that matches, all before it failing, gives the record, with
  \<^verbatim>\<open>enabled = True\<close>; when no enable-pattern matches, the first disable-pattern that
  matches does, with \<^verbatim>\<open>enabled = False\<close>; no match is reported exactly when every
  pattern fails. In the default set the quoted-name patterns stand before the fallback of
  their own list, so a line matching a quoted-name enable-pattern is classified by a
  quoted-name enable-pattern, and a line matching no enable-pattern and a quoted-name
  disable-pattern by a quoted-name disable-pattern. A line matching the enable fallback
  and no quoted-name enable-pattern is classified by the enable fallback, whatever
  disable-patterns it matches; a line matching the disable fallback and no other pattern
  is classified by the disable fallback.
\<close>

theorem first_match_wins:
  "(pat_enabled pats = ps @ p # qs \<and> (\<forall>q \<in> set ps. search q (lower line) = Inr None)
      \<and> search p (lower line) = Inr (Some m)
     \<longrightarrow> (\<exists>st. status_of_match True m = Inr st \<and> parse_with_patterns line pats = Inr (True, st)))
   \<and> ((\<forall>q \<in> set (pat_enabled pats). search q (lower line) = Inr None)
      \<and> pat_disabled pats = ps @ p # qs \<and> (\<forall>q \<in> set ps. search q (lower line) = Inr None)
      \<and> search p (lower line) = Inr (Some m)
     \<longrightarrow> (\<exists>st. status_of_match False m = Inr st \<and> parse_with_patterns line pats = Inr (True, st)))
   \<and> ((\<exists>st. parse_with_patterns line pats = Inr (False, st))
      \<longleftrightarrow> (\<forall>q \<in> set (pat_enabled pats @ pat_disabled pats). search q (lower line) = Inr None))
   \<and> (matches (Pat enabled_1) line \<or> matches (Pat enabled_2) line \<or> matches (Pat enabled_3) line
     \<longrightarrow> (\<exists>r m st. r \<in> {enabled_1, enabled_2, enabled_3}
           \<and> re_search True r (lower line) = Some m \<and> status_of_match True m = Inr st
           \<and> parse_with_patterns line DEFAULT_PATTERNS = Inr (True, st)))
   \<and> ((\<forall>q \<in> set (pat_enabled DEFAULT_PATTERNS). \<not> matches q line)
      \<and> (matches (Pat disabled_1) line \<or> matches (Pat disabled_2) line
          \<or> matches (Pat disabled_3) line \<or> matches (Pat disabled_4) line)
     \<longrightarrow> (\<exists>r m st. r \<in> {disabled_1, disabled_2, disabled_3, disabled_4}
           \<and> re_search True r (lower line) = Some m \<and> status_of_match False m = Inr st
           \<and> parse_with_patterns line DEFAULT_PATTERNS = Inr (True, st)))
   \<and> (\<not> matches (Pat enabled_1) line \<and> \<not> matches (Pat enabled_2) line
      \<and> \<not> matches (Pat enabled_3) line \<and> matches (Pat enabled_4) line
     \<longrightarrow> (\<exists>m st. re_search True enabled_4 (lower line) = Some m
           \<and> status_of_match True m = Inr st
           \<and> parse_with_patterns line DEFAULT_PATTERNS = Inr (True, st)))
   \<and> ((\<forall>q \<in> set (pat_enabled DEFAULT_PATTERNS). \<not> matches q line)
      \<and> \<not> matches (Pat disabled_1) line \<and> \<not> matches (Pat disabled_2) line
      \<and> \<not> matches (Pat disabled_3) line \<and> \<not> matches (Pat disabled_4) line
      \<and> matches (Pat disabled_5) line
     \<longrightarrow> (\<exists>m st. re_search True disabled_5 (lower line) = Some m
           \<and> status_of_match False m = Inr st
           \<and> parse_with_patterns line DEFAULT_PATTERNS = Inr (True, st)))"
proof (intro conjI impI)
  assume "pat_enabled pats = ps @ p # qs \<and> (\<forall>q \<in> set ps. search q (lower line) = Inr None)
      \<and> search p (lower line) = Inr (Some m)"
  then show "\<exists>st. status_of_match True m = Inr st \<and> parse_with_patterns line pats = Inr (True, st)"
    using parse_enabled_first [of ps line p m pats qs] by blast
next
  assume "(\<forall>q \<in> set (pat_enabled pats). search q (lower line) = Inr None)
      \<and> pat_disabled pats = ps @ p # qs \<and> (\<forall>q \<in> set ps. search q (lower line) = Inr None)
      \<and> search p (lower line) = Inr (Some m)"
  then show "\<exists>st. status_of_match False m = Inr st \<and> parse_with_patterns line pats = Inr (True, st)"
    using parse_disabled_first [of pats line ps p m qs] by blast
next
  show "(\<exists>st. parse_with_patterns line pats = Inr (False, st))
      \<longleftrightarrow> (\<forall>q \<in> set (pat_enabled pats @ pat_disabled pats). search q (lower line) = Inr None)"
    by (rule parse_no_match_iff)
next
  assume "matches (Pat enabled_1) line \<or> matches (Pat enabled_2) line \<or> matches (Pat enabled_3) line"
  then show "\<exists>r m st. r \<in> {enabled_1, enabled_2, enabled_3}
           \<and> re_search True r (lower line) = Some m \<and> status_of_match True m = Inr st
           \<and> parse_with_patterns line DEFAULT_PATTERNS = Inr (True, st)"
    by (rule strict_enabled)
next
  assume "(\<forall>q \<in> set (pat_enabled DEFAULT_PATTERNS). \<not> matches q line)
      \<and> (matches (Pat disabled_1) line \<or> matches (Pat disabled_2) line
          \<or> matches (Pat disabled_3) line \<or> matches (Pat disabled_4) line)"
  then show "\<exists>r m st. r \<in> {disabled_1, disabled_2, disabled_3, disabled_4}
           \<and> re_search True r (lower line) = Some m \<and> status_of_match False m = Inr st
           \<and> parse_with_patterns line DEFAULT_PATTERNS = Inr (True, st)"
    using strict_disabled [of line] by blast
next
  assume "\<not> matches (Pat enabled_1) line \<and> \<not> matches (Pat enabled_2) line
      \<and> \<not> matches (Pat enabled_3) line \<and> matches (Pat enabled_4) line"
  then show "\<exists>m st. re_search True enabled_4 (lower line) = Some m
           \<and> status_of_match True m = Inr st
           \<and> parse_with_patterns line DEFAULT_PATTERNS = Inr (True, st)"
    using enable_fallback [of line] by blast
next
  assume "(\<forall>q \<in> set (pat_enabled DEFAULT_PATTERNS). \<not> matches q line)
      \<and> \<not> matches (Pat disabled_1) line \<and> \<not> matches (Pat disabled_2) line
      \<and> \<not> matches (Pat disabled_3) line \<and> \<not> matches (Pat disabled_4) line
      \<and> matches (Pat disabled_5) line"
  then show "\<exists>m st. re_search True disabled_5 (lower line) = Some m
           \<and> status_of_match False m = Inr st
           \<and> parse_with_patterns line DEFAULT_PATTERNS = Inr (True, st)"
    using disable_fallback [of line] by blast
qed

theorem first_match_wins_witness:
  "matches (Pat enabled_2) ''strategy 'a' on es enabled on connection c strategy b enabled''
   \<and> matches (Pat enabled_4) ''strategy 'a' on es enabled on connection c strategy b enabled''
   \<and> (\<exists>r m st. r \<in> {enabled_1, enabled_2, enabled_3}
        \<and> re_search True r (lower ''strategy 'a' on es enabled on connection c strategy b enabled'') = Some m
        \<and> status_of_match True m = Inr st
        \<and> parse_with_patterns ''strategy 'a' on es enabled on connection c strategy b enabled''
             DEFAULT_PATTERNS = Inr (True, st))
   \<and> parse_view ''strategy 'a' on es enabled on connection c strategy b enabled'' DEFAULT_PATTERNS
       = Inr (True, Some True, [Some ''a'', Some ''es'', Some ''c strategy b enabled'', None])
   \<and> matches (Pat disabled_1) ''Disabling NinjaScript strategy 'B' (strategy F enabled)''
   \<and> matches (Pat enabled_4) ''Disabling NinjaScript strategy 'B' (strategy F enabled)''
   \<and> (\<exists>m st. re_search True enabled_4 (lower ''Disabling NinjaScript strategy 'B' (strategy F enabled)'')
          = Some m
        \<and> status_of_match True m = Inr st
        \<and> parse_with_patterns ''Disabling NinjaScript strategy 'B' (strategy F enabled)''
             DEFAULT_PATTERNS = Inr (True, st))"
proof -
  have both: "matches (Pat enabled_2) ''strategy 'a' on es enabled on connection c strategy b enabled''
      \<and> matches (Pat enabled_4) ''strategy 'a' on es enabled on connection c strategy b enabled''"
    by code_simp
  have captures: "parse_view ''strategy 'a' on es enabled on connection c strategy b enabled''
      DEFAULT_PATTERNS
       = Inr (True, Some True, [Some ''a'', Some ''es'', Some ''c strategy b enabled'', None])"
    by code_simp
  from both first_match_wins [where pats = DEFAULT_PATTERNS
      and line = "''strategy 'a' on es enabled on connection c strategy b enabled''"]
  have strict: "\<exists>r m st. r \<in> {enabled_1, enabled_2, enabled_3}
        \<and> re_search True r (lower ''strategy 'a' on es enabled on connection c strategy b enabled'') = Some m
        \<and> status_of_match True m = Inr st
        \<and> parse_with_patterns ''strategy 'a' on es enabled on connection c strategy b enabled''
             DEFAULT_PATTERNS = Inr (True, st)"
    by blast
  have other: "matches (Pat disabled_1) ''Disabling NinjaScript strategy 'B' (strategy F enabled)''
      \<and> \<not> matches (Pat enabled_1) ''Disabling NinjaScript strategy 'B' (strategy F enabled)''
      \<and> \<not> matches (Pat enabled_2) ''Disabling NinjaScript strategy 'B' (strategy F enabled)''
      \<and> \<not> matches (Pat enabled_3) ''Disabling NinjaScript strategy 'B' (strategy F enabled)''
      \<and> matches (Pat enabled_4) ''Disabling NinjaScript strategy 'B' (strategy F enabled)''"
    by code_simp
  from other first_match_wins [where pats = DEFAULT_PATTERNS
      and line = "''Disabling NinjaScript strategy 'B' (strategy F enabled)''"]
  have loose: "\<exists>m st. re_search True enabled_4
          (lower ''Disabling NinjaScript strategy 'B' (strategy F enabled)'') = Some m
        \<and> status_of_match True m = Inr st
        \<and> parse_with_patterns ''Disabling NinjaScript strategy 'B' (strategy F enabled)''
             DEFAULT_PATTERNS = Inr (True, st)"
    by blast
  from both captures strict other loose show ?thesis by blast
qed

text \<open>
  The line \<^verbatim>\<open>Disabling NinjaScript strategy 'Bar/1' (strategy Foo enabled, Baz disabled)\<close>
  matches the first, quoted-name disable-pattern, the disable fallback and the enable
  fallback. Its record is the enable fallback's: enabled, name "foo". The disable-patterns
  alone give the quoted-name pattern's record: name "bar", disabled.
\<close>

theorem strict_disable_loses_to_fallback:
  "matches (Pat disabled_1) STRICT_AND_LOOSE_LINE
   \<and> matches (Pat disabled_5) STRICT_AND_LOOSE_LINE
   \<and> matches (Pat enabled_4) STRICT_AND_LOOSE_LINE
   \<and> parse_view STRICT_AND_LOOSE_LINE DEFAULT_PATTERNS
       = Inr (True, Some True, [Some ''foo'', Some ''baz'', Some [], None])
   \<and> parse_view STRICT_AND_LOOSE_LINE (DEFAULT_PATTERNS\<lparr>pat_enabled := []\<rparr>)
       = Inr (True, Some False, [Some ''bar'', None, None, None])"
  by code_simp

subsection \<open>The reconciliation loop\<close>

lemma changed_differs: "changed prev new = differs prev new"
  by (cases prev) (auto simp: changed_def differs_def)

lemma process_line_record:
  "line_record cfg l = Some new
   \<Longrightarrow> process_line cfg ev l mon
       = Inr (if changed (map_of (statuses mon) (name new, instrument new)) new
              then apply_change cfg ev new mon else (mon, []))"
  by (auto simp: line_record_def process_line_def Let_def split: if_splits sum.splits prod.splits)

lemma process_line_no_record:
  "line_record cfg l = None
   \<Longrightarrow> (\<exists>e. process_line cfg ev l mon = Inl e) \<or> process_line cfg ev l mon = Inr (mon, [])
       \<or> process_line cfg ev l mon = Inr (mon, [Warn_no_name l])"
  by (auto simp: line_record_def process_line_def Let_def split: if_splits sum.splits prod.splits)

lemma apply_change_table:
  "statuses (fst (apply_change cfg ev new mon))
     = AList.update (name new, instrument new) new (statuses mon)"
  by (simp add: apply_change_def Let_def)

lemma apply_change_events:
  "\<exists>rest. snd (apply_change cfg ev new mon)
     = Change (name new) (instrument new) (enabled new) (connection new)
       # Write_snapshot (statuses_to_json (now ev) (AList.update (name new, instrument new) new (statuses mon)))
       # (if write_ok ev then Json_updated (length (AList.update (name new, instrument new) new (statuses mon))) else Json_failed)
       # Publish (name new) (instrument new) (enabled new) (connection new) # rest
     \<and> changes rest = 0 \<and> writes rest = 0"
  by (simp add: apply_change_def Let_def changes_def writes_def)

lemma alpha_record: "line_record DEFAULT_CONFIG ALPHA_LINE = Some ALPHA"
  by code_simp

lemma foo_enabled_record: "line_record DEFAULT_CONFIG ''Strategy Foo enabled'' = Some FOO_ENABLED"
  by code_simp

text \<open>
  C3. When a processed line yields a record with a name, the loop updates exactly when no
  record is stored under the key (name, instrument) or the stored record differs from the
  new one in enabled, connection or instrument. An update replaces the record under the
  key, prints the change notice, writes the snapshot of the new table and publishes;
  otherwise the state is unchanged and nothing is emitted, whatever the stored account.
\<close>

theorem change_test:
  assumes rec: "line_record cfg raw_line = Some new"
    and prev: "prev = map_of (statuses mon) (name new, instrument new)"
  shows "\<exists>mon' out. process_line cfg ev raw_line mon = Inr (mon', out)
     \<and> (differs prev new \<longrightarrow>
          statuses mon' = AList.update (name new, instrument new) new (statuses mon)
          \<and> take 2 out = [Change (name new) (instrument new) (enabled new) (connection new),
               Write_snapshot (statuses_to_json (now ev) (statuses mon'))]
          \<and> Publish (name new) (instrument new) (enabled new) (connection new) \<in> set out)
     \<and> (\<not> differs prev new \<longrightarrow> mon' = mon \<and> out = [])"
proof (cases "differs prev new")
  case True
  then have "process_line cfg ev raw_line mon = Inr (apply_change cfg ev new mon)"
    using process_line_record [OF rec] prev by (simp add: changed_differs)
  then have "process_line cfg ev raw_line mon
      = Inr (fst (apply_change cfg ev new mon), snd (apply_change cfg ev new mon))" by simp
  moreover obtain rest where "snd (apply_change cfg ev new mon)
     = Change (name new) (instrument new) (enabled new) (connection new)
       # Write_snapshot (statuses_to_json (now ev) (AList.update (name new, instrument new) new (statuses mon)))
       # (if write_ok ev then Json_updated (length (AList.update (name new, instrument new) new (statuses mon))) else Json_failed)
       # Publish (name new) (instrument new) (enabled new) (connection new) # rest"
    using apply_change_events by blast
  ultimately show ?thesis using True apply_change_table [of cfg ev new mon]
    by (simp add: numeral_2_eq_2)
next
  case False
  then have "process_line cfg ev raw_line mon = Inr (mon, [])"
    using process_line_record [OF rec] prev by (simp add: changed_differs)
  with False show ?thesis by simp
qed


theorem change_test_witness:
  "(\<exists>mon' out. process_line DEFAULT_CONFIG env0 ALPHA_LINE fresh = Inr (mon', out)
      \<and> statuses mon' = [((''alpha'', []), ALPHA)]
      \<and> Publish ''alpha'' [] True ''sim101'' \<in> set out)
   \<and> process_line DEFAULT_CONFIG env0 ALPHA_LINE (holding (ALPHA\<lparr>account := ''old''\<rparr>))
      = Inr (holding (ALPHA\<lparr>account := ''old''\<rparr>), [])"
proof -
  have new: "differs None ALPHA"
    by (simp add: differs_def)
  have "None = map_of (statuses fresh) (name ALPHA, instrument ALPHA)"
    by (simp add: fresh_def)
  from change_test [OF alpha_record this, of env0] new
  have first: "\<exists>mon' out. process_line DEFAULT_CONFIG env0 ALPHA_LINE fresh = Inr (mon', out)
      \<and> statuses mon' = [((''alpha'', []), ALPHA)]
      \<and> Publish ''alpha'' [] True ''sim101'' \<in> set out"
    by (auto simp: fresh_def ALPHA_def)
  have same: "\<not> differs (Some (ALPHA\<lparr>account := ''old''\<rparr>)) ALPHA"
    by (simp add: differs_def)
  have "Some (ALPHA\<lparr>account := ''old''\<rparr>)
      = map_of (statuses (holding (ALPHA\<lparr>account := ''old''\<rparr>))) (name ALPHA, instrument ALPHA)"
    by (simp add: holding_def)
  from change_test [OF alpha_record this, of env0] same
  have second: "process_line DEFAULT_CONFIG env0 ALPHA_LINE (holding (ALPHA\<lparr>account := ''old''\<rparr>))
      = Inr (holding (ALPHA\<lparr>account := ''old''\<rparr>), [])"
    by auto
  from first second show ?thesis by (rule conjI)
qed

lemma loop_step_no_record:
  assumes "line_record cfg l = None"
  shows "\<exists>out. loop_step cfg ev l m = (m, out) \<and> changes out = 0 \<and> writes out = 0"
proof -
  from process_line_no_record [OF assms, of ev m]
  consider (err) e where "process_line cfg ev l m = Inl e"
    | (skip) "process_line cfg ev l m = Inr (m, [])"
    | (warn) "process_line cfg ev l m = Inr (m, [Warn_no_name l])"
    by blast
  then show ?thesis
    by cases (simp_all add: loop_step_def changes_def writes_def)
qed

text \<open>
  C4, as the code has it. Processing the same line twice in succession produces at most
  one change notice and as many snapshot writes: the second processing leaves the state
  as the first left it and emits neither. There is exactly one of each when the line
  yields a named record and no record is stored under its key or the stored one differs
  in enabled, connection or instrument; otherwise there is none.
\<close>

theorem same_line_twice:
  assumes one: "loop_step cfg e1 l mon = (m1, o1)"
    and two: "loop_step cfg e2 l m1 = (m2, o2)"
  shows "m2 = m1 \<and> changes o2 = 0 \<and> writes o2 = 0
     \<and> changes (o1 @ o2) \<le> 1 \<and> writes (o1 @ o2) = changes (o1 @ o2)
     \<and> (changes (o1 @ o2) = 1 \<longleftrightarrow>
          (\<exists>new. line_record cfg l = Some new
             \<and> differs (map_of (statuses mon) (name new, instrument new)) new))"
proof (cases "line_record cfg l")
  case None
  obtain x1 where 1: "loop_step cfg e1 l mon = (mon, x1)" "changes x1 = 0" "writes x1 = 0"
    using loop_step_no_record [OF None] by blast
  with one have m1: "m1 = mon" "o1 = x1" by simp_all
  obtain x2 where 2: "loop_step cfg e2 l mon = (mon, x2)" "changes x2 = 0" "writes x2 = 0"
    using loop_step_no_record [OF None] by blast
  with two m1 have "m2 = mon" "o2 = x2" by simp_all
  with 1 2 m1 None show ?thesis
    by (simp add: changes_def writes_def)
next
  case (Some new)
  let ?k = "(name new, instrument new)"
  show ?thesis
  proof (cases "differs (map_of (statuses mon) ?k) new")
    case True
    then have s1: "loop_step cfg e1 l mon = apply_change cfg e1 new mon"
      using process_line_record [OF Some] by (simp add: loop_step_def changed_differs)
    with one have m1: "statuses m1 = AList.update ?k new (statuses mon)"
      using apply_change_table [of cfg e1 new mon] by simp
    then have "map_of (statuses m1) ?k = Some new"
      by (simp add: update_conv')
    then have "\<not> changed (map_of (statuses m1) ?k) new"
      by (simp add: changed_def)
    then have "loop_step cfg e2 l m1 = (m1, [])"
      using process_line_record [OF Some] by (simp add: loop_step_def)
    with two have second: "m2 = m1" "o2 = []" by simp_all
    obtain rest where "snd (apply_change cfg e1 new mon)
       = Change (name new) (instrument new) (enabled new) (connection new)
         # Write_snapshot (statuses_to_json (now e1) (AList.update ?k new (statuses mon)))
         # (if write_ok e1 then Json_updated (length (AList.update ?k new (statuses mon))) else Json_failed)
         # Publish (name new) (instrument new) (enabled new) (connection new) # rest"
      and "changes rest = 0" "writes rest = 0"
      using apply_change_events [of cfg e1 new mon] by blast
    moreover from s1 one have "apply_change cfg e1 new mon = (m1, o1)" by simp
    then have "snd (apply_change cfg e1 new mon) = o1" by simp
    ultimately have "changes o1 = 1" "writes o1 = 1"
      by (auto simp: changes_def writes_def)
    with second True Some show ?thesis
      by (auto simp: changes_def writes_def)
  next
    case False
    then have "\<And>ev. loop_step cfg ev l mon = (mon, [])"
      using process_line_record [OF Some] by (simp add: loop_step_def changed_differs)
    with one two have "m1 = mon" "o1 = []" "m2 = mon" "o2 = []" by auto
    with False Some show ?thesis
      by (auto simp: changes_def writes_def)
  qed
qed


theorem same_line_twice_witness:
  "loop_step DEFAULT_CONFIG env0 ''Strategy Foo enabled'' fresh
     = apply_change DEFAULT_CONFIG env0 FOO_ENABLED fresh
   \<and> statuses (fst (apply_change DEFAULT_CONFIG env0 FOO_ENABLED fresh)) = [((''foo'', []), FOO_ENABLED)]
   \<and> changes (snd (apply_change DEFAULT_CONFIG env0 FOO_ENABLED fresh)
        @ snd (loop_step DEFAULT_CONFIG env0 ''Strategy Foo enabled''
                (fst (apply_change DEFAULT_CONFIG env0 FOO_ENABLED fresh)))) = 1
   \<and> writes (snd (apply_change DEFAULT_CONFIG env0 FOO_ENABLED fresh)
        @ snd (loop_step DEFAULT_CONFIG env0 ''Strategy Foo enabled''
                (fst (apply_change DEFAULT_CONFIG env0 FOO_ENABLED fresh)))) = 1"
proof -
  let ?r = "apply_change DEFAULT_CONFIG env0 FOO_ENABLED fresh"
  have new: "differs (map_of (statuses fresh) (name FOO_ENABLED, instrument FOO_ENABLED)) FOO_ENABLED"
    by (simp add: differs_def fresh_def)
  then have "loop_step DEFAULT_CONFIG env0 ''Strategy Foo enabled'' fresh = ?r"
    using process_line_record [OF foo_enabled_record, of env0 fresh]
    by (simp add: loop_step_def changed_differs)
  then have one: "loop_step DEFAULT_CONFIG env0 ''Strategy Foo enabled'' fresh = (fst ?r, snd ?r)"
    by simp
  have two: "loop_step DEFAULT_CONFIG env0 ''Strategy Foo enabled'' (fst ?r)
      = (fst (loop_step DEFAULT_CONFIG env0 ''Strategy Foo enabled'' (fst ?r)),
         snd (loop_step DEFAULT_CONFIG env0 ''Strategy Foo enabled'' (fst ?r)))"
    by simp
  have table: "statuses (fst ?r) = [((''foo'', []), FOO_ENABLED)]"
    by (simp add: apply_change_table fresh_def FOO_ENABLED_def)
  from same_line_twice [OF one two] foo_enabled_record new one table
  show ?thesis by auto
qed

text \<open>
  Once the record of \<^verbatim>\<open>Strategy Foo enabled\<close> is in the table, processing that line
  twice produces no change notice and no snapshot write.
\<close>

theorem same_line_twice_nothing:
  "fst (loop_step DEFAULT_CONFIG env0 ''Strategy Foo enabled'' fresh) = holding FOO_ENABLED
   \<and> run_lines DEFAULT_CONFIG
        [(env0, ''Strategy Foo enabled''), (env0, ''Strategy Foo enabled'')] (holding FOO_ENABLED)
       = (holding FOO_ENABLED, [])"
  by code_simp


subsection \<open>Instruments are lower-case when they are validated\<close>

lemma lower_char_not_upper: "\<not> between 65 90 (code (lower_char c))"
proof -
  have "code c < 256"
    by (simp add: code_def)
  then show ?thesis
    by (auto simp: lower_char_def code_def between_def Let_def)
qed

lemma no_upper_lower: "no_upper (lower line)"
  by (auto simp: no_upper_def lower_def lower_char_not_upper)

lemma no_upper_subset: "set v \<subseteq> set s \<Longrightarrow> no_upper s \<Longrightarrow> no_upper v"
  by (auto simp: no_upper_def)

lemma set_strip_with: "set (strip_with P s) \<subseteq> set s"
proof -
  have "set (dropWhile P (rev (dropWhile P s))) \<subseteq> set (rev (dropWhile P s))"
    by (rule set_dropWhileD [THEN subsetI]) 
  also have "\<dots> \<subseteq> set s"
    using set_dropWhileD [of _ P s] by auto
  finally show ?thesis by (simp add: strip_with_def)
qed

lemma set_slice: "set (slice b e s) \<subseteq> set s"
  unfolding slice_def using set_take_subset set_drop_subset by (metis subset_trans)

lemma set_before_slash: "set (before_slash s) \<subseteq> set s"
  unfolding before_slash_def using set_takeWhileD by (metis subsetI)

lemma no_upper_strip: "no_upper s \<Longrightarrow> no_upper (strip s)"
  unfolding strip_def using set_strip_with no_upper_subset by blast

lemma no_upper_strip_chars: "no_upper s \<Longrightarrow> no_upper (strip_chars cs s)"
  unfolding strip_chars_def using set_strip_with no_upper_subset by blast

lemma no_upper_Nil: "no_upper []"
  by (simp add: no_upper_def)

lemma group_no_upper:
  "group m k = Inr v \<Longrightarrow> no_upper (subject m) \<Longrightarrow> no_upper (strip (or_empty v))"
  by (cases v)
    (auto simp: group_def or_empty_def strip_def strip_with_def no_upper_Nil split: if_splits
      intro!: no_upper_strip [unfolded strip_def strip_with_def] no_upper_subset [OF set_slice])

lemma capture_fields_lowered:
  "capture_fields m ks = Inr gd \<Longrightarrow> no_upper (subject m) \<Longrightarrow> lowered gd"
proof (induction ks arbitrary: gd)
  case Nil
  then show ?case by (auto simp: lowered_def)
next
  case (Cons k ks)
  show ?case
  proof (cases "k \<in> set (names m)")
    case False
    with Cons show ?thesis by simp
  next
    case True
    with Cons.prems(1) obtain v gd' where v: "group m k = Inr v"
      and gd': "capture_fields m ks = Inr gd'" and gd: "gd = gd'(k \<mapsto> strip (or_empty v))"
      by (auto split: sum.splits)
    from Cons.IH [OF gd' Cons.prems(2)] group_no_upper [OF v Cons.prems(2)] gd
    show ?thesis by (auto simp: lowered_def)
  qed
qed

lemma normalize_name_lowered: "lowered gd \<Longrightarrow> lowered (normalize_name gd)"
  using set_before_slash no_upper_subset
  by (auto simp: normalize_name_def lowered_def split: option.splits) blast

lemma search_subject: "search p low = Inr (Some m) \<Longrightarrow> subject m = low"
  by (cases p) (auto simp: search_def re_search_def match_obj_of_def)

lemma status_of_match_lowered:
  "status_of_match en m = Inr st \<Longrightarrow> no_upper (subject m) \<Longrightarrow> lowered (d_strs st)"
proof -
  assume a: "status_of_match en m = Inr st" and low: "no_upper (subject m)"
  obtain gd where gd: "capture_fields m [''name'', ''instrument'', ''connection''] = Inr gd"
    using capture_fields_total by blast
  with a have "d_strs st = normalize_name gd"
    by (auto simp: status_of_match_def simp del: capture_fields.simps)
  with capture_fields_lowered [OF gd low] show ?thesis
    by (simp add: normalize_name_lowered)
qed

lemma try_patterns_lowered:
  "try_patterns en ps low = Inr (Some st) \<Longrightarrow> no_upper low \<Longrightarrow> lowered (d_strs st)"
proof -
  assume a: "try_patterns en ps low = Inr (Some st)" and low: "no_upper low"
  from try_patterns_source [OF a] obtain p m where
    "search p low = Inr (Some m)" "status_of_match en m = Inr st" by blast
  then show ?thesis
    using status_of_match_lowered [of en m st] search_subject [of p low m] low by simp
qed

lemma parse_lowered:
  "parse_with_patterns line pats = Inr (b, st) \<Longrightarrow> lowered (d_strs st)"
  using try_patterns_lowered [OF _ no_upper_lower]
  by (auto simp: parse_with_patterns_def Let_def empty_status_def lowered_def
      split: sum.splits option.splits)

lemma first_extract_no_upper:
  "first_extract f ps low = Inr (Some v) \<Longrightarrow> no_upper low \<Longrightarrow> no_upper v"
proof (induction ps)
  case Nil
  then show ?case by simp
next
  case (Cons p ps)
  show ?case
  proof (cases "search p low")
    case (Inl e)
    with Cons.prems show ?thesis by simp
  next
    case (Inr r)
    show ?thesis
    proof (cases r)
      case None
      with Inr Cons show ?thesis by simp
    next
      case (Some m)
      show ?thesis
      proof (cases "f \<in> set (names m)")
        case True
        with Inr Some Cons.prems(1) obtain w where w: "group m f = Inr w"
          and v: "v = strip (or_empty w)"
          by (auto split: sum.splits)
        from search_subject Inr Some have "subject m = low" by simp
        with group_no_upper [OF w] Cons.prems(2) v show ?thesis by simp
      next
        case False
        with Inr Some Cons show ?thesis by simp
      qed
    qed
  qed
qed

lemma fill_fields_lowered:
  "fill_fields fs ex low d = Inr d' \<Longrightarrow> no_upper low \<Longrightarrow> lowered d \<Longrightarrow> lowered d'"
proof (induction fs arbitrary: d)
  case Nil
  then show ?case by simp
next
  case (Cons f fs)
  show ?case
  proof (cases "truthy (d f)")
    case True
    with Cons show ?thesis by simp
  next
    case False
    show ?thesis
    proof (cases "first_extract f (ex f) low")
      case (Inl e)
      with False Cons.prems show ?thesis by simp
    next
      case (Inr r)
      show ?thesis
      proof (cases r)
        case None
        with Inr False Cons show ?thesis by simp
      next
        case (Some v)
        with Inr False Cons.prems have step: "fill_fields fs ex low (d(f \<mapsto> v)) = Inr d'"
          by simp
        from first_extract_no_upper Inr Some Cons.prems(2) have "no_upper v" by blast
        with Cons.prems(3) have "lowered (d(f \<mapsto> v))" by (simp add: lowered_def)
        from Cons.IH [OF step Cons.prems(2) this] show ?thesis .
      qed
    qed
  qed
qed

lemma trim_fields_lowered: "lowered d \<Longrightarrow> lowered (trim_fields d)"
  using no_upper_strip_chars by (auto simp: lowered_def trim_fields_def)

lemma not_upper_atom: "\<not> between 65 90 (code c) \<Longrightarrow> \<not> atom_ok False upper_AZ c"
  by (simp add: upper_AZ_def in_range_def code_def)

lemma no_upper_invalid:
  assumes "no_upper v"
  shows "\<not> valid_instrument v"
proof (cases v)
  case Nil
  then show ?thesis
    by (simp add: valid_instrument_def re_match_def match_obj_of_def RE_FUT_MMMYY_def
        RE_FUT_MMYY_def RE_SYMBOL_def seqs_def counted_def)
next
  case (Cons c rest)
  with assms have "\<not> atom_ok False upper_AZ c"
    by (simp add: no_upper_def not_upper_atom)
  with Cons show ?thesis
    by (simp add: valid_instrument_def re_match_def match_obj_of_def RE_FUT_MMMYY_def
        RE_FUT_MMYY_def RE_SYMBOL_def seqs_def counted_def)
qed

lemma check_instrument_empty:
  "lowered d \<Longrightarrow> or_empty (check_instrument d ''instrument'') = []"
  using no_upper_invalid
  by (auto simp: check_instrument_def lowered_def or_empty_def split: option.splits)

lemma fill_instrument_empty:
  assumes "fill_missing_fields line st0 pats = Inr st" and "lowered (d_strs st0)"
  shows "get_str st ''instrument'' = []"
proof -
  from assms(1) obtain d where d: "fill_fields FIELDS (pat_extractors pats) (lower line) (d_strs st0) = Inr d"
    and st: "st = st0\<lparr>d_strs := check_instrument (trim_fields d)\<rparr>"
    by (auto simp: fill_missing_fields_def Let_def split: sum.splits)
  from fill_fields_lowered [OF d no_upper_lower assms(2)] have "lowered (trim_fields d)"
    by (rule trim_fields_lowered)
  then show ?thesis
    using st check_instrument_empty by (simp add: get_str_def)
qed

lemma set_update_subset: "set (AList.update k v al) \<subseteq> insert (k, v) (set al)"
  by (induction al) auto

lemma update_blank:
  "blank_instruments tbl \<Longrightarrow> instrument new = []
   \<Longrightarrow> blank_instruments (AList.update (name new, instrument new) new tbl)"
  using set_update_subset [of "(name new, instrument new)" new tbl]
  by (auto simp: blank_instruments_def)

lemma json_blank:
  "blank_instruments tbl \<Longrightarrow> \<forall>s \<in> set (strategies (statuses_to_json t tbl)). instrument s = []"
  by (auto simp: blank_instruments_def statuses_to_json_def)

lemma pipeline_instrument:
  "parse_with_patterns line pats = Inr (b, st0) \<Longrightarrow> fill_missing_fields line st0 pats = Inr st
   \<Longrightarrow> get_str st ''instrument'' = []"
  using fill_instrument_empty parse_lowered by blast

lemma line_record_instrument: "line_record cfg l = Some new \<Longrightarrow> instrument new = []"
  using pipeline_instrument
  by (auto simp: line_record_def make_status_def validate_instrument_def
      split: if_splits sum.splits prod.splits)

lemma build_initial_blank:
  "build_initial_statuses ls pats ms tbl = Inr tbl' \<Longrightarrow> blank_instruments tbl
   \<Longrightarrow> blank_instruments tbl'"
proof (induction ls arbitrary: tbl)
  case Nil
  then show ?case by simp
next
  case (Cons l ls)
  show ?case
  proof (cases "\<exists>b st0 st. parse_with_patterns l pats = Inr (b, st0)
      \<and> fill_missing_fields l st0 pats = Inr st
      \<and> build_initial_statuses (l # ls) pats ms tbl
          = build_initial_statuses ls pats ms
              (AList.update (get_str st ''name'', get_str st ''instrument'')
                 (make_status st (get_str st ''instrument'')) tbl)")
    case True
    then obtain b st0 st where p: "parse_with_patterns l pats = Inr (b, st0)"
      and f: "fill_missing_fields l st0 pats = Inr st"
      and step: "build_initial_statuses (l # ls) pats ms tbl
          = build_initial_statuses ls pats ms
              (AList.update (get_str st ''name'', get_str st ''instrument'')
                 (make_status st (get_str st ''instrument'')) tbl)"
      by blast
    let ?new = "make_status st (get_str st ''instrument'')"
    have i: "instrument ?new = []"
      using pipeline_instrument [OF p f] by (simp add: make_status_def)
    have "(get_str st ''name'', get_str st ''instrument'') = (name ?new, instrument ?new)"
      by (simp add: make_status_def)
    with update_blank [OF Cons.prems(2) i]
    have "blank_instruments (AList.update (get_str st ''name'', get_str st ''instrument'') ?new tbl)"
      by simp
    with Cons.IH step Cons.prems(1) show ?thesis by simp
  next
    case False
    then have "build_initial_statuses (l # ls) pats ms tbl = build_initial_statuses ls pats ms tbl
        \<or> (\<exists>e. build_initial_statuses (l # ls) pats ms tbl = Inl e)"
      by (auto simp: Let_def make_status_def split: sum.splits prod.splits if_splits)
    with Cons show ?thesis by auto
  qed
qed

lemma no_writes: "writes out = 0 \<Longrightarrow> blank_snapshots out"
proof -
  assume "writes out = 0"
  then have "\<forall>x \<in> set out. \<not> is_write x"
    by (simp add: writes_def filter_empty_conv)
  then show ?thesis
    by (fastforce simp: blank_snapshots_def)
qed

lemma apply_change_blank:
  assumes "blank_instruments (statuses mon)" and "instrument new = []"
  shows "blank_instruments (statuses (fst (apply_change cfg ev new mon)))
     \<and> blank_snapshots (snd (apply_change cfg ev new mon))"
proof -
  let ?tbl = "AList.update (name new, instrument new) new (statuses mon)"
  have b: "blank_instruments ?tbl"
    using update_blank [OF assms] .
  then have "\<forall>s \<in> set (strategies (statuses_to_json (now ev) ?tbl)). instrument s = []"
    by (rule json_blank)
  then have "blank_snapshots (snd (apply_change cfg ev new mon))"
    by (auto simp: apply_change_def Let_def blank_snapshots_def split: if_splits)
  with b show ?thesis
    by (simp add: apply_change_table)
qed

lemma loop_step_blank:
  assumes "loop_step cfg ev l mon = (mon', out)" and "blank_instruments (statuses mon)"
  shows "blank_instruments (statuses mon') \<and> blank_snapshots out"
proof (cases "line_record cfg l")
  case None
  from loop_step_no_record [OF None, of ev mon] assms show ?thesis
    by (auto simp: no_writes)
next
  case (Some new)
  show ?thesis
  proof (cases "changed (map_of (statuses mon) (name new, instrument new)) new")
    case True
    then have "loop_step cfg ev l mon = apply_change cfg ev new mon"
      using process_line_record [OF Some] by (simp add: loop_step_def)
    with assms(1) have "mon' = fst (apply_change cfg ev new mon)"
      "out = snd (apply_change cfg ev new mon)" by simp_all
    with apply_change_blank [OF assms(2) line_record_instrument [OF Some]] show ?thesis
      by simp
  next
    case False
    then have "loop_step cfg ev l mon = (mon, [])"
      using process_line_record [OF Some] by (simp add: loop_step_def)
    with assms show ?thesis by (auto simp: blank_snapshots_def)
  qed
qed

lemma blank_snapshots_append:
  "blank_snapshots a \<Longrightarrow> blank_snapshots b \<Longrightarrow> blank_snapshots (a @ b)"
  by (auto simp: blank_snapshots_def)

lemma run_lines_blank:
  "run_lines cfg ls mon = (mon', out) \<Longrightarrow> blank_instruments (statuses mon)
   \<Longrightarrow> blank_instruments (statuses mon') \<and> blank_snapshots out"
proof (induction ls arbitrary: mon mon' out)
  case Nil
  then show ?case by (simp add: blank_snapshots_def)
next
  case (Cons a ls)
  obtain ev l where a: "a = (ev, l)" by (cases a)
  obtain m1 o1 where s1: "loop_step cfg ev l mon = (m1, o1)" by (cases "loop_step cfg ev l mon")
  obtain m2 o2 where s2: "run_lines cfg ls m1 = (m2, o2)" by (cases "run_lines cfg ls m1")
  from Cons.prems(1) a s1 s2 have r: "mon' = m2" "out = o1 @ o2" by simp_all
  from loop_step_blank [OF s1 Cons.prems(2)]
  have b1: "blank_instruments (statuses m1)" "blank_snapshots o1" by simp_all
  from Cons.IH [OF s2 b1(1)] b1(2) r show ?case
    by (simp add: blank_snapshots_append)
qed

lemma start_blank:
  assumes "start cfg ev tail_lines = (mon, out)"
  shows "blank_instruments (statuses mon) \<and> blank_snapshots out"
proof (cases "build_initial_statuses tail_lines (cfg_patterns cfg) (match_strategies cfg) []")
  case (Inl e)
  with assms show ?thesis
    by (auto simp: start_def blank_instruments_def blank_snapshots_def)
next
  case (Inr tbl)
  have "blank_instruments []" by (simp add: blank_instruments_def)
  from build_initial_blank [OF Inr this] have b: "blank_instruments tbl" .
  from json_blank [OF b] Inr assms b show ?thesis
    by (auto simp: start_def blank_snapshots_def split: if_splits)
qed

lemma monitor_blank:
  assumes "run_strategy_status_monitor cfg ev0 tail_lines live = (mon, out)"
  shows "blank_instruments (statuses mon) \<and> blank_snapshots out"
proof -
  obtain m0 o0 where s0: "start cfg ev0 tail_lines = (m0, o0)" by (cases "start cfg ev0 tail_lines")
  obtain m1 o1 where s1: "run_lines cfg live m0 = (m1, o1)" by (cases "run_lines cfg live m0")
  from assms s0 s1 have r: "mon = m1" "out = o0 @ o1"
    by (simp_all add: run_strategy_status_monitor_def)
  from start_blank [OF s0] have b0: "blank_instruments (statuses m0)" "blank_snapshots o0"
    by simp_all
  from run_lines_blank [OF s1 b0(1)] b0(2) r show ?thesis
    by (simp add: blank_snapshots_append)
qed

text \<open>
  C2. Whatever the pattern set, every capture is a part of the lower-cased line and so has
  none of the letters A to Z, while each validator pattern begins with one to six of them:
  the instrument of the record that leaves \<^verbatim>\<open>fill_missing_fields\<close> is empty, and so
  is the instrument of the record the loop builds. Hence every key of the table of the
  monitor, after the backfill and any live lines, is (name, ""), every record of the table
  has the empty instrument, and so has every record of every snapshot written.
\<close>

theorem instrument_always_empty:
  "no_upper (lower line)
   \<and> (no_upper v \<longrightarrow> \<not> valid_instrument v)
   \<and> (parse_with_patterns line pats = Inr (b, st0) \<and> fill_missing_fields line st0 pats = Inr st
       \<longrightarrow> get_str st ''instrument'' = [])
   \<and> (line_record cfg line = Some new \<longrightarrow> instrument new = [])
   \<and> (run_strategy_status_monitor cfg ev0 tail_lines live = (mon, out)
       \<longrightarrow> blank_instruments (statuses mon) \<and> blank_snapshots out)"
proof (intro conjI impI)
  show "no_upper (lower line)"
    by (rule no_upper_lower)
next
  assume "no_upper v"
  then show "\<not> valid_instrument v"
    by (rule no_upper_invalid)
next
  assume "parse_with_patterns line pats = Inr (b, st0) \<and> fill_missing_fields line st0 pats = Inr st"
  then show "get_str st ''instrument'' = []"
    using pipeline_instrument by blast
next
  assume "line_record cfg line = Some new"
  then show "instrument new = []"
    by (rule line_record_instrument)
next
  assume a: "run_strategy_status_monitor cfg ev0 tail_lines live = (mon, out)"
  from monitor_blank [OF a] show "blank_instruments (statuses mon)" by (rule conjunct1)
  from monitor_blank [OF a] show "blank_snapshots out" by (rule conjunct2)
qed

theorem instrument_always_empty_witness:
  "line_record DEFAULT_CONFIG ALPHA_LINE = Some ALPHA
   \<and> instrument ALPHA = []
   \<and> map fst (statuses (fst (run_strategy_status_monitor DEFAULT_CONFIG env0
        [ALPHA_LINE] [(env0, FOO_LINE)]))) = [(''alpha'', []), (''foo'', [])]
   \<and> blank_instruments (statuses (fst (run_strategy_status_monitor DEFAULT_CONFIG env0
        [ALPHA_LINE] [(env0, FOO_LINE)])))"
proof -
  let ?run = "run_strategy_status_monitor DEFAULT_CONFIG env0 [ALPHA_LINE] [(env0, FOO_LINE)]"
  have keys: "map fst (statuses (fst ?run)) = [(''alpha'', []), (''foo'', [])]"
    by code_simp
  have "?run = (fst ?run, snd ?run)"
    by simp
  with instrument_always_empty [where cfg = DEFAULT_CONFIG and line = ALPHA_LINE and new = ALPHA
      and ?ev0.0 = env0 and tail_lines = "[ALPHA_LINE]" and live = "[(env0, FOO_LINE)]"
      and mon = "fst ?run" and out = "snd ?run"]
    alpha_record
  have "instrument ALPHA = [] \<and> blank_instruments (statuses (fst ?run))"
    by blast
  with keys alpha_record show ?thesis by blast
qed

subsection \<open>Exceptions\<close>












end
